theory Spec2Isabelle
  imports Main "HOL-Library.List_Lexorder" "HOL-Library.Multiset"
begin

unbundle bit_operations_syntax

section \<open>Python strings\<close>

text \<open>
  A Python \<open>str\<close> is a sequence of Unicode code points, so it is modelled as a list of
  natural numbers; \<open>S\<close> turns an ASCII literal into such a list.  The order of
  the library theory List_Lexorder on these lists is Python's string comparison
  (lexicographic by code point, a proper prefix first).
\<close>

type_synonym pystr = "nat list"

definition S :: "string \<Rightarrow> pystr" where
  "S s = map of_char s"

text \<open>The code points \<open>str.isspace\<close> accepts, which are the ones \<open>str.strip()\<close> removes.\<close>

definition isspace :: "nat \<Rightarrow> bool" where
  "isspace c =
     ((9 \<le> c \<and> c \<le> 13) \<or> (28 \<le> c \<and> c \<le> 32) \<or> c = 133 \<or> c = 160 \<or> c = 5760
      \<or> (8192 \<le> c \<and> c \<le> 8202) \<or> c = 8232 \<or> c = 8233 \<or> c = 8239 \<or> c = 8287
      \<or> c = 12288)"

definition strip :: "pystr \<Rightarrow> pystr" where
  "strip s = rev (dropWhile isspace (rev (dropWhile isspace s)))"

text \<open>\<open>sep.join(parts)\<close>.\<close>

fun join :: "pystr \<Rightarrow> pystr list \<Rightarrow> pystr" where
  "join sep [] = []"
| "join sep [x] = x"
| "join sep (x # y # ys) = x @ sep @ join sep (y # ys)"

text \<open>\<open>str(n)\<close> for an integer: decimal digits, a minus sign in front of a negative one.\<close>

function digits :: "nat \<Rightarrow> pystr" where
  "digits n = (if n < 10 then [48 + n] else digits (n div 10) @ [48 + n mod 10])"
  by pat_completeness auto
termination
  by (relation "measure id") auto

declare digits.simps [simp del]

definition str_int :: "int \<Rightarrow> pystr" where
  "str_int i = (if i < 0 then 45 # digits (nat (- i)) else digits (nat i))"

section \<open>JSON values\<close>

text \<open>
  The values \<open>json.loads\<close> returns and \<open>json.dumps\<close> accepts: \<open>None\<close>, booleans,
  integers, strings, lists, and dictionaries with string keys.  A dictionary is an
  association list in insertion order whose keys are pairwise distinct.  Floating-point
  numbers are outside the model.
\<close>

datatype json =
    JNull
  | JBool bool
  | JInt int
  | JStr pystr
  | JArr "json list"
  | JObj "(pystr \<times> json) list"

type_synonym pydict = "(pystr \<times> json) list"

text \<open>\<open>d.get(k, default)\<close>.\<close>

definition dict_get :: "pydict \<Rightarrow> pystr \<Rightarrow> json \<Rightarrow> json" where
  "dict_get d k dflt = (case map_of d k of None \<Rightarrow> dflt | Some v \<Rightarrow> v)"

text \<open>Truthiness, as \<open>x or y\<close> and \<open>if x\<close> test it.\<close>

fun truthy :: "json \<Rightarrow> bool" where
  "truthy JNull = False"
| "truthy (JBool b) = b"
| "truthy (JInt i) = (i \<noteq> 0)"
| "truthy (JStr s) = (s \<noteq> [])"
| "truthy (JArr xs) = (xs \<noteq> [])"
| "truthy (JObj kvs) = (kvs \<noteq> [])"

subsection \<open>\<open>json.dumps(obj, sort_keys=True)\<close>\<close>

text \<open>
  The defaults apply: \<open>ensure_ascii=True\<close>, item separator \<open>", "\<close>, key separator
  \<open>": "\<close>, no indentation.  Code point 34 is the double quote, 92 the backslash.
\<close>

definition hex_digit :: "nat \<Rightarrow> nat" where
  "hex_digit d = (if d < 10 then 48 + d else 87 + d)"

text \<open>\<open>'{0:04x}'.format(n)\<close> for \<open>n < 0x10000\<close>.\<close>

definition hex4 :: "nat \<Rightarrow> pystr" where
  "hex4 n = map (\<lambda>k. hex_digit (drop_bit (4 * k) n AND 15)) [3, 2, 1, 0]"

definition escape_char :: "nat \<Rightarrow> pystr" where
  "escape_char c =
     (if c = 92 then [92, 92]
      else if c = 34 then [92, 34]
      else if c = 8 then [92, 98]
      else if c = 12 then [92, 102]
      else if c = 10 then [92, 110]
      else if c = 13 then [92, 114]
      else if c = 9 then [92, 116]
      else if 32 \<le> c \<and> c \<le> 126 then [c]
      else if c < 65536 then [92, 117] @ hex4 c
      else let n = c - 65536;
               s1 = 55296 OR (drop_bit 10 n AND 1023);
               s2 = 56320 OR (n AND 1023)
           in [92, 117] @ hex4 s1 @ [92, 117] @ hex4 s2)"

definition encode_str :: "pystr \<Rightarrow> pystr" where
  "encode_str s = [34] @ concat (map escape_char s) @ [34]"

text \<open>
  For a dictionary the encoder iterates over \<open>sorted(dct.items())\<close>; the keys of a
  dictionary are distinct, so the items are ordered by key alone.
\<close>

function json_dumps :: "json \<Rightarrow> pystr" where
  "json_dumps JNull = S ''null''"
| "json_dumps (JBool b) = (if b then S ''true'' else S ''false'')"
| "json_dumps (JInt i) = str_int i"
| "json_dumps (JStr s) = encode_str s"
| "json_dumps (JArr xs) = S ''['' @ join (S '', '') (map json_dumps xs) @ S '']''"
| "json_dumps (JObj kvs) =
     S ''{'' @ join (S '', '')
       (map (\<lambda>kv. encode_str (fst kv) @ S '': '' @ json_dumps (snd kv)) (sort_key fst kvs))
     @ S ''}''"
  by pat_completeness auto
termination
proof (relation "measure size")
  fix kvs :: "(pystr \<times> json) list" and kv
  assume "kv \<in> set (sort_key fst kvs)"
  then have "kv \<in> set kvs" by simp
  then have "size (snd kv) < Suc (size_list (size_prod (\<lambda>_. 0) size) kvs)"
    by (induction kvs) auto
  then show "(snd kv, JObj kvs) \<in> measure size" by simp
next
  fix xs :: "json list" and x
  assume "x \<in> set xs"
  then have "size x < Suc (size_list size xs)"
    by (induction xs) auto
  then show "(x, JArr xs) \<in> measure size" by simp
qed simp

section \<open>The storage module\<close>

text \<open>
  Every exception the modelled code can raise.  The first four are \<open>ValueError\<close>s, which
  the consumer catches; \<open>AttributeError\<close> is \<open>.get\<close> called on a value that is not a
  dictionary, and \<open>BindingError\<close> is sqlite3 refusing a statement parameter.
\<close>

datatype error =
    ContentRequired
  | MessageIdBlank
  | MissingField pystr
  | InvalidJson nat
  | AttributeError
  | BindingError

fun is_ValueError :: "error \<Rightarrow> bool" where
  "is_ValueError ContentRequired = True"
| "is_ValueError MessageIdBlank = True"
| "is_ValueError (MissingField f) = True"
| "is_ValueError (InvalidJson n) = True"
| "is_ValueError AttributeError = False"
| "is_ValueError BindingError = False"

text \<open>
  Library behaviour the repository does not define is a parameter of the model:
  \<open>json_loads\<close> is \<open>json.loads\<close> (\<open>None\<close> when it raises \<open>JSONDecodeError\<close>), and
  \<open>py_repr\<close> is what \<open>str()\<close> gives for a list or a dictionary.
\<close>

record pylib =
  json_loads :: "pystr \<Rightarrow> json option"
  py_repr :: "json \<Rightarrow> pystr"

text \<open>\<open>str(v)\<close>.\<close>

fun py_str :: "pylib \<Rightarrow> json \<Rightarrow> pystr" where
  "py_str L JNull = S ''None''"
| "py_str L (JBool b) = (if b then S ''True'' else S ''False'')"
| "py_str L (JInt i) = str_int i"
| "py_str L (JStr s) = s"
| "py_str L (JArr xs) = py_repr L (JArr xs)"
| "py_str L (JObj kvs) = py_repr L (JObj kvs)"

subsection \<open>\<open>create_payload\<close>\<close>

text \<open>
  \<open>fresh_id\<close> is what \<open>str(uuid.uuid4())\<close> returns if it is called, \<open>now\<close> what
  \<open>utc_now_iso()\<close> returns.
\<close>

definition create_payload ::
  "pystr \<Rightarrow> pystr \<Rightarrow> pystr option \<Rightarrow> pystr option \<Rightarrow> pystr \<Rightarrow> pystr option \<Rightarrow> error + pydict"
where
  "create_payload fresh_id now content message_id producer_name user_name =
     (let clean_content = strip (case content of None \<Rightarrow> [] | Some c \<Rightarrow> c) in
      if clean_content = [] then Inl ContentRequired
      else
        let mid = strip (case message_id of
                           None \<Rightarrow> fresh_id
                         | Some m \<Rightarrow> if m = [] then fresh_id else m);
            payload = [(S ''message_id'', JStr mid),
                       (S ''content'', JStr clean_content),
                       (S ''published_at'', JStr now),
                       (S ''producer_name'', JStr producer_name)];
            payload' = (case user_name of
                          None \<Rightarrow> payload
                        | Some u \<Rightarrow> if u = [] then payload
                                    else payload @ [(S ''user_name'', JStr (strip u))])
        in if mid = [] then Inl MessageIdBlank else Inr payload')"

subsection \<open>The durable state\<close>

text \<open>A row of the table \<open>messages\<close>; \<open>is_duplicate\<close> is the INTEGER column (0 or 1).\<close>

record message_row =
  row_id :: nat
  message_id :: pystr
  message_content :: pystr
  published_at :: pystr
  received_at :: pystr
  is_duplicate :: int
  transport_id :: json
  source :: json
  producer_name :: pystr
  raw_payload :: pystr

text \<open>
  The file \<open>consumer_state.json\<close> as \<open>_load_consumer_state_map\<close> sees it: missing,
  not loadable (\<open>json.load\<close> raises \<open>JSONDecodeError\<close> or \<open>OSError\<close>), loaded as something
  that is not a dictionary, or loaded as a dictionary.  A value \<open>v\<close> of that dictionary
  is \<open>IntLike n\<close> when \<open>int(v)\<close> returns \<open>n\<close>, and \<open>NotIntLike\<close> when \<open>int(v)\<close> raises
  \<open>TypeError\<close> or \<open>ValueError\<close>.
\<close>

datatype entry_value = IntLike int | NotIntLike

datatype state_file =
    Absent
  | Unparsable
  | NotDict
  | Dict "pystr \<rightharpoonup> entry_value"

text \<open>
  The three resources under \<open>data/\<close>: the text of \<open>local_outbox.jsonl\<close> (\<open>None\<close> while the
  file does not exist), \<open>consumer_state.json\<close>, and the rows of \<open>messages.db\<close> in
  insertion order.  \<open>init_db\<close> creates the table when it is missing and changes nothing
  else, so a database that does not exist yet is the empty list of rows.
\<close>

record world =
  outbox :: "pystr option"
  consumer_state :: state_file
  messages :: "message_row list"

subsection \<open>The outbox\<close>

text \<open>
  \<open>append_outbox_message\<close>: \<open>fresh_id\<close> is the \<open>transport_id\<close> drawn, \<open>now\<close> the time read.
  Opening in mode \<open>"a"\<close> creates a missing file; code point 10 is the newline.
\<close>

definition append_outbox_message ::
  "pystr \<Rightarrow> pystr \<Rightarrow> json \<Rightarrow> pystr \<Rightarrow> world \<Rightarrow> json \<times> world"
where
  "append_outbox_message fresh_id now payload src w =
     (let envelope = JObj [(S ''transport_id'', JStr fresh_id),
                           (S ''queued_at'', JStr now),
                           (S ''source'', JStr src),
                           (S ''payload'', payload)];
          old = (case outbox w of None \<Rightarrow> [] | Some t \<Rightarrow> t)
      in (envelope, w\<lparr>outbox := Some (old @ json_dumps envelope @ [10])\<rparr>))"

text \<open>
  The lines a text-mode file object iterates over.  With universal newlines a line ends
  at \<open>\n\<close> (10), at \<open>\r\<close> (13) or at \<open>\r\n\<close>, and the terminator is handed over as \<open>\n\<close>; a
  last line without terminator is handed over as it is.  \<open>cr\<close> says that the previous
  character was a \<open>\r\<close>, \<open>acc\<close> is the line read so far.
\<close>

fun split_lines :: "bool \<Rightarrow> pystr \<Rightarrow> pystr \<Rightarrow> pystr list" where
  "split_lines cr acc [] = (if acc = [] then [] else [acc])"
| "split_lines cr acc (c # cs) =
     (if cr \<and> c = 10 then split_lines False acc cs
      else if c = 10 then (acc @ [10]) # split_lines False [] cs
      else if c = 13 then (acc @ [10]) # split_lines True [] cs
      else split_lines False (acc @ [c]) cs)"

definition readlines :: "pystr \<Rightarrow> pystr list" where
  "readlines text = split_lines False [] text"

text \<open>
  A generator is modelled by what it does when it is run to its end: the items it
  yields, and the exception that ends it, if one does.  The body of the loop of
  \<open>iter_outbox_from_line\<close> over \<open>enumerate(handle, start=1)\<close>:
\<close>

fun scan_lines ::
  "pylib \<Rightarrow> int \<Rightarrow> (nat \<times> pystr) list \<Rightarrow> (nat \<times> json) list \<times> error option"
where
  "scan_lines L start_line [] = ([], None)"
| "scan_lines L start_line ((line_number, line) # rest) =
     (if int line_number \<le> start_line then scan_lines L start_line rest
      else
        let stripped = strip line in
        if stripped = [] then scan_lines L start_line rest
        else (case json_loads L stripped of
                None \<Rightarrow> ([], Some (InvalidJson line_number))
              | Some envelope \<Rightarrow>
                  (case scan_lines L start_line rest of
                     (ys, e) \<Rightarrow> ((line_number, envelope) # ys, e))))"

definition iter_outbox_from_line ::
  "pylib \<Rightarrow> world \<Rightarrow> int \<Rightarrow> (nat \<times> json) list \<times> error option"
where
  "iter_outbox_from_line L w start_line =
     (case outbox w of
        None \<Rightarrow> ([], None)
      | Some text \<Rightarrow> scan_lines L start_line (enumerate 1 (readlines text)))"

definition count_outbox_lines :: "world \<Rightarrow> nat" where
  "count_outbox_lines w =
     (case outbox w of
        None \<Rightarrow> 0
      | Some text \<Rightarrow> length (filter (\<lambda>line. strip line \<noteq> []) (readlines text)))"

subsection \<open>The consumer offsets\<close>

definition load_consumer_state_map :: "world \<Rightarrow> (pystr \<rightharpoonup> int)" where
  "load_consumer_state_map w =
     (case consumer_state w of
        Absent \<Rightarrow> Map.empty
      | Unparsable \<Rightarrow> Map.empty
      | NotDict \<Rightarrow> Map.empty
      | Dict d \<Rightarrow> (\<lambda>key. case d key of
                              Some (IntLike n) \<Rightarrow> Some n
                            | _ \<Rightarrow> None))"

definition get_consumer_offset :: "pystr \<Rightarrow> world \<Rightarrow> int" where
  "get_consumer_offset consumer w =
     (case load_consumer_state_map w consumer of None \<Rightarrow> 0 | Some n \<Rightarrow> n)"

text \<open>\<open>json.dump\<close> writes every entry of \<open>state\<close> as an integer.\<close>

definition set_consumer_offset :: "pystr \<Rightarrow> int \<Rightarrow> world \<Rightarrow> world" where
  "set_consumer_offset consumer last_line w =
     (let state = (load_consumer_state_map w)(consumer \<mapsto> max 0 last_line)
      in w\<lparr>consumer_state := Dict (\<lambda>key. map_option IntLike (state key))\<rparr>)"

subsection \<open>The message store\<close>

text \<open>What sqlite3 binds as a statement parameter: no list, no dictionary, and an
  integer only if it fits 64 bits.\<close>

fun bindable :: "json \<Rightarrow> bool" where
  "bindable (JArr xs) = False"
| "bindable (JObj kvs) = False"
| "bindable (JInt i) = (- (2 ^ 63) \<le> i \<and> i < 2 ^ 63)"
| "bindable v = True"

text \<open>The key an AUTOINCREMENT column gives the next row: one more than the largest so far.\<close>

definition next_row_id :: "message_row list \<Rightarrow> nat" where
  "next_row_id rows = Suc (fold max (map row_id rows) 0)"

text \<open>The dictionary \<open>insert_message_from_payload\<close> returns.\<close>

record inserted =
  r_id :: nat
  r_message_id :: pystr
  r_message_content :: pystr
  r_published_at :: pystr
  r_received_at :: pystr
  r_is_duplicate :: bool
  r_transport_id :: json
  r_source :: json
  r_consumer_name :: pystr

text \<open>\<open>str(payload.get(key, "")).strip()\<close>.\<close>

definition field_str :: "pylib \<Rightarrow> pydict \<Rightarrow> pystr \<Rightarrow> pystr" where
  "field_str L payload key = strip (py_str L (dict_get payload key (JStr [])))"

text \<open>
  \<open>insert_message_from_payload\<close>.  \<open>t_pub\<close> is what \<open>utc_now_iso()\<close> returns at the
  \<open>published_at\<close> fallback (read only when the field is blank), \<open>t_recv\<close> what it returns
  for \<open>received_at\<close>.  The parameters are bound when the INSERT statement runs, after
  the duplicate check; a failure there leaves the table as it was.  The assignment
  \<open>producer_name = producer_name\<close> under \<open>if consumer_name\<close> changes nothing.
\<close>

definition insert_message_from_payload ::
  "pylib \<Rightarrow> pystr \<times> pystr \<Rightarrow> json \<Rightarrow> json \<Rightarrow> json \<Rightarrow> pystr \<Rightarrow> world \<Rightarrow> error + inserted \<times> world"
where
  "insert_message_from_payload L clk payload_v tid src consumer w =
     (case payload_v of
        JObj payload \<Rightarrow>
          let mid = field_str L payload (S ''message_id'');
              content = field_str L payload (S ''content'');
              pub = (let p = field_str L payload (S ''published_at'')
                     in if p = [] then fst clk else p);
              producer = (let p = field_str L payload (S ''producer_name'')
                          in if p = [] then S ''unknown-producer'' else p)
          in
            if mid = [] then Inl (MissingField (S ''message_id''))
            else if content = [] then Inl (MissingField (S ''content''))
            else
              let recv = snd clk;
                  raw = json_dumps payload_v;
                  duplicate_exists = (mid \<in> set (map message_id (messages w)));
                  dup = (if duplicate_exists then 1 else 0)
              in
                if \<not> (bindable tid \<and> bindable src) then Inl BindingError
                else
                  let new_id = next_row_id (messages w);
                      row = \<lparr>row_id = new_id, message_id = mid, message_content = content,
                             published_at = pub, received_at = recv, is_duplicate = dup,
                             transport_id = tid, source = src, producer_name = producer,
                             raw_payload = raw\<rparr>
                  in Inr (\<lparr>r_id = new_id, r_message_id = mid, r_message_content = content,
                           r_published_at = pub, r_received_at = recv,
                           r_is_duplicate = (dup \<noteq> 0), r_transport_id = tid,
                           r_source = src, r_consumer_name = consumer\<rparr>,
                          w\<lparr>messages := messages w @ [row]\<rparr>)
      | _ \<Rightarrow> Inl AttributeError)"

text \<open>\<open>get_summary\<close>, without the two constant paths.\<close>

record summary =
  outbox_count :: nat
  db_total :: nat
  db_duplicates :: int

definition get_summary :: "world \<Rightarrow> summary" where
  "get_summary w =
     \<lparr>outbox_count = count_outbox_lines w,
      db_total = length (messages w),
      db_duplicates = sum_list (map is_duplicate (messages w))\<rparr>"

section \<open>The consumer\<close>

record args =
  consumer_name :: pystr
  batch_size :: int
  reset_offset :: bool
  status_only :: bool

text \<open>The local variables of \<open>main\<close> and the durable state.\<close>

record loop_state =
  processed :: nat
  duplicates :: nat
  latest_offset :: int
  world :: world

text \<open>
  The \<open>for\<close> loop of \<open>main\<close> over the items of the generator, with the exception that
  ends the generator in \<open>gen_err\<close>.  The result is the state when the loop is left and
  the exception that left it, if any.  The generator is advanced before the batch
  test, so an exception of the generator comes before the \<open>break\<close>.  \<open>clock n\<close> holds
  the two times read while line \<open>n\<close> is inserted.
\<close>

fun consume ::
  "pylib \<Rightarrow> (nat \<Rightarrow> pystr \<times> pystr) \<Rightarrow> args \<Rightarrow> (nat \<times> json) list \<Rightarrow> error option
     \<Rightarrow> loop_state \<Rightarrow> error option \<times> loop_state"
where
  "consume L clock a [] gen_err st = (gen_err, st)"
| "consume L clock a ((line_number, envelope) # rest) gen_err st =
     (if batch_size a \<noteq> 0 \<and> int (processed st) \<ge> batch_size a then (None, st)
      else (case envelope of
              JObj env \<Rightarrow>
                let p = dict_get env (S ''payload'') JNull;
                    payload = (if truthy p then p else JObj [])
                in (case insert_message_from_payload L (clock line_number) payload
                           (dict_get env (S ''transport_id'') JNull)
                           (dict_get env (S ''source'') JNull)
                           (consumer_name a) (world st) of
                      Inl e \<Rightarrow> (Some e, st)
                    | Inr (result, w') \<Rightarrow>
                        consume L clock a rest gen_err
                          \<lparr>processed = processed st + 1,
                           duplicates = (if r_is_duplicate result then duplicates st + 1
                                         else duplicates st),
                           latest_offset = int line_number,
                           world = set_consumer_offset (consumer_name a) (int line_number) w'\<rparr>)
            | _ \<Rightarrow> (Some AttributeError, st)))"

text \<open>
  How \<open>main\<close> ends: it returns an exit status, or an exception nothing catches leaves it.
\<close>

datatype outcome = Returned nat | Raised error

record run =
  outcome :: outcome
  caught :: "error option"
  final :: loop_state

definition main :: "pylib \<Rightarrow> (nat \<Rightarrow> pystr \<times> pystr) \<Rightarrow> args \<Rightarrow> world \<Rightarrow> run" where
  "main L clock a w0 =
     (let w1 = (if reset_offset a then set_consumer_offset (consumer_name a) 0 w0 else w0);
          current_offset = get_consumer_offset (consumer_name a) w1;
          st0 = \<lparr>processed = 0, duplicates = 0, latest_offset = current_offset, world = w1\<rparr>
      in
        if status_only a then \<lparr>outcome = Returned 0, caught = None, final = st0\<rparr>
        else
          (case iter_outbox_from_line L w1 current_offset of
             (items, gen_err) \<Rightarrow>
               (case consume L clock a items gen_err st0 of
                  (None, st) \<Rightarrow> \<lparr>outcome = Returned 0, caught = None, final = st\<rparr>
                | (Some e, st) \<Rightarrow>
                    if is_ValueError e
                    then \<lparr>outcome = Returned 1, caught = Some e, final = st\<rparr>
                    else \<lparr>outcome = Raised e, caught = None, final = st\<rparr>)))"

section \<open>The producer\<close>

record producer_args =
  p_content :: "pystr option"
  p_message_id :: "pystr option"
  p_producer_name :: pystr
  p_user_name :: "pystr option"
  p_source :: pystr

text \<open>
  \<open>main\<close> of the producer stub.  \<open>typed\<close> is the line \<open>input()\<close> returns when it is
  called (\<open>None\<close> for \<open>EOFError\<close>); \<open>ids\<close> and \<open>nows\<close> hold what the two calls of
  \<open>uuid.uuid4()\<close> and of \<open>utc_now_iso()\<close> return.
\<close>

definition producer_main ::
  "pystr option \<Rightarrow> pystr \<times> pystr \<Rightarrow> pystr \<times> pystr \<Rightarrow> producer_args \<Rightarrow> world
     \<Rightarrow> outcome \<times> world"
where
  "producer_main typed ids nows a w =
     (let content = strip (case p_content a of None \<Rightarrow> [] | Some c \<Rightarrow> c);
          content' = (if content = []
                      then (case typed of None \<Rightarrow> [] | Some t \<Rightarrow> strip t)
                      else content)
      in
        if content' = [] then (Returned 1, w)
        else (case create_payload (fst ids) (fst nows) (Some content') (p_message_id a)
                     (p_producer_name a) (p_user_name a) of
                Inl e \<Rightarrow> (Raised e, w)
              | Inr payload \<Rightarrow>
                  (case append_outbox_message (snd ids) (snd nows) (JObj payload)
                          (p_source a) w of
                     (envelope, w') \<Rightarrow> (Returned 0, w'))))"

section \<open>Runs of several operations\<close>

text \<open>The state before anything was ever written.\<close>

definition empty_world :: world where
  "empty_world = \<lparr>outbox = None, consumer_state = Absent, messages = []\<rparr>"

text \<open>
  One call of \<open>insert_message_from_payload\<close> with the times it reads, and a sequence of
  such calls run one after the other.  A call that raises leaves the store as it was,
  and the next call goes on from there.
\<close>

record insert_call =
  c_clock :: "pystr \<times> pystr"
  c_payload :: json
  c_transport_id :: json
  c_source :: json
  c_consumer :: pystr

definition do_insert :: "pylib \<Rightarrow> insert_call \<Rightarrow> world \<Rightarrow> error + inserted \<times> world" where
  "do_insert L c w =
     insert_message_from_payload L (c_clock c) (c_payload c) (c_transport_id c) (c_source c)
       (c_consumer c) w"

fun insert_seq ::
  "pylib \<Rightarrow> insert_call list \<Rightarrow> world \<Rightarrow> (error + inserted) list \<times> world"
where
  "insert_seq L [] w = ([], w)"
| "insert_seq L (c # cs) w =
     (case do_insert L c w of
        Inl e \<Rightarrow> (case insert_seq L cs w of (rs, w') \<Rightarrow> (Inl e # rs, w'))
      | Inr (r, w1) \<Rightarrow> (case insert_seq L cs w1 of (rs, w') \<Rightarrow> (Inr r # rs, w')))"

text \<open>
  The exception that inserting a payload raises, and the one that processing an entry of
  the outbox raises, if any: they depend on the payload and on the entry alone, not on
  the store, the clock or the consumer.
\<close>

definition insert_error :: "pylib \<Rightarrow> json \<Rightarrow> json \<Rightarrow> json \<Rightarrow> error option" where
  "insert_error L payload_v tid src =
     (case payload_v of
        JObj payload \<Rightarrow>
          if field_str L payload (S ''message_id'') = [] then Some (MissingField (S ''message_id''))
          else if field_str L payload (S ''content'') = [] then Some (MissingField (S ''content''))
          else if \<not> (bindable tid \<and> bindable src) then Some BindingError
          else None
      | _ \<Rightarrow> Some AttributeError)"

definition entry_error :: "pylib \<Rightarrow> json \<Rightarrow> error option" where
  "entry_error L envelope =
     (case envelope of
        JObj env \<Rightarrow>
          let p = dict_get env (S ''payload'') JNull
          in insert_error L (if truthy p then p else JObj [])
               (dict_get env (S ''transport_id'') JNull) (dict_get env (S ''source'') JNull)
      | _ \<Rightarrow> Some AttributeError)"

text \<open>
  Where the loop of \<open>main\<close> starts: the state after the optional reset, the offset read
  from it, the local variables, and what the generator is going to yield.
\<close>

definition start_world :: "args \<Rightarrow> world \<Rightarrow> world" where
  "start_world a w0 =
     (if reset_offset a then set_consumer_offset (consumer_name a) 0 w0 else w0)"

definition start_offset :: "args \<Rightarrow> world \<Rightarrow> int" where
  "start_offset a w0 = get_consumer_offset (consumer_name a) (start_world a w0)"

definition start_state :: "args \<Rightarrow> world \<Rightarrow> loop_state" where
  "start_state a w0 =
     \<lparr>processed = 0, duplicates = 0, latest_offset = start_offset a w0, world = start_world a w0\<rparr>"

definition pending :: "pylib \<Rightarrow> args \<Rightarrow> world \<Rightarrow> (nat \<times> json) list \<times> error option" where
  "pending L a w0 = iter_outbox_from_line L (start_world a w0) (start_offset a w0)"



text \<open>
  The invariant the specification states for a payload: \<open>message_id\<close> and \<open>content\<close> are
  strings that are not empty after trimming.
\<close>

definition payload_invariant :: "pydict \<Rightarrow> bool" where
  "payload_invariant p =
     (case (map_of p (S ''message_id''), map_of p (S ''content'')) of
        (Some (JStr i), Some (JStr c)) \<Rightarrow> strip i \<noteq> [] \<and> strip c \<noteq> []
      | _ \<Rightarrow> False)"

subsection \<open>Concrete inputs\<close>

text \<open>A library that decodes no line, a payload with the two required fields, and a call
  that inserts a payload.\<close>

definition lib0 :: pylib where
  "lib0 = \<lparr>json_loads = (\<lambda>s. None), py_repr = (\<lambda>v. S ''?'')\<rparr>"

definition payload_of :: "pystr \<Rightarrow> pystr \<Rightarrow> json" where
  "payload_of mid content = JObj [(S ''message_id'', JStr mid), (S ''content'', JStr content)]"

definition call_of :: "json \<Rightarrow> insert_call" where
  "call_of p = \<lparr>c_clock = (S ''t1'', S ''t2''), c_payload = p, c_transport_id = JNull,
                c_source = JNull, c_consumer = S ''consumer-stub''\<rparr>"

text \<open>
  A library that decodes exactly the encodings of the given values, an envelope as
  \<open>append_outbox_message\<close> builds it around \<open>payload_of\<close>, and the call that appends it.
\<close>

definition lib_table :: "json list \<Rightarrow> pylib" where
  "lib_table vs = \<lparr>json_loads = map_of (map (\<lambda>v. (json_dumps v, v)) vs),
                   py_repr = (\<lambda>v. S ''?'')\<rparr>"

definition test_envelope :: "pystr \<Rightarrow> pystr \<Rightarrow> pystr \<Rightarrow> json" where
  "test_envelope tid mid content =
     JObj [(S ''transport_id'', JStr tid), (S ''queued_at'', JStr (S ''t'')),
           (S ''source'', JStr (S ''s'')), (S ''payload'', payload_of mid content)]"


text \<open>
  An outbox holding the given lines, the arguments of a run with a batch size, a clock,
  and two outboxes: one whose third line of five is not JSON, and one of two lines; each
  with a library that decodes its envelopes.
\<close>

definition test_world :: "pystr list \<Rightarrow> world" where
  "test_world ls = \<lparr>outbox = Some (concat (map (\<lambda>l. l @ [10]) ls)), consumer_state = Absent,
                    messages = []\<rparr>"

definition test_args :: "int \<Rightarrow> args" where
  "test_args b = \<lparr>consumer_name = S ''consumer-stub'', batch_size = b, reset_offset = False,
                  status_only = False\<rparr>"

definition test_clock :: "nat \<Rightarrow> pystr \<times> pystr" where
  "test_clock n = (S ''t1'', S ''t2'')"

definition five_lines :: "pystr list" where
  "five_lines =
     [json_dumps (test_envelope (S ''i1'') (S ''a'') (S ''x'')),
      json_dumps (test_envelope (S ''i2'') (S ''b'') (S ''x'')),
      S ''not json'',
      json_dumps (test_envelope (S ''i4'') (S ''c'') (S ''x'')),
      json_dumps (test_envelope (S ''i5'') (S ''d'') (S ''x''))]"

definition five_lib :: pylib where
  "five_lib = lib_table [test_envelope (S ''i1'') (S ''a'') (S ''x''),
                         test_envelope (S ''i2'') (S ''b'') (S ''x''),
                         test_envelope (S ''i4'') (S ''c'') (S ''x''),
                         test_envelope (S ''i5'') (S ''d'') (S ''x'')]"

definition two_lines :: "pystr list" where
  "two_lines =
     [json_dumps (test_envelope (S ''i1'') (S ''a'') (S ''x'')),
      json_dumps (test_envelope (S ''i2'') (S ''b'') (S ''x''))]"

definition two_lib :: pylib where
  "two_lib = lib_table [test_envelope (S ''i1'') (S ''a'') (S ''x''),
                        test_envelope (S ''i2'') (S ''b'') (S ''x'')]"

text \<open>The printable ASCII characters, space included.\<close>

definition printable :: "nat \<Rightarrow> bool" where
  "printable c = (32 \<le> c \<and> c \<le> 126)"

section \<open>Properties of strings\<close>

lemmas eval_defs = S_def strip_def isspace_def field_str_def dict_get_def
  insert_message_from_payload_def do_insert_def empty_world_def lib0_def payload_of_def
  call_of_def next_row_id_def get_summary_def Let_def

lemma strip_Nil [simp]: "strip [] = []"
  by (simp add: strip_def)

lemma strip_ends:
  assumes "strip s \<noteq> []"
  shows "\<not> isspace (hd (strip s)) \<and> \<not> isspace (last (strip s))"
proof -
  let ?t = "dropWhile isspace s"
  let ?d = "dropWhile isspace (rev ?t)"
  have u: "strip s = rev ?d" by (simp add: strip_def)
  with assms have dne: "?d \<noteq> []" by simp
  then have "\<not> isspace (hd ?d)" by (rule hd_dropWhile)
  then have l: "\<not> isspace (last (strip s))" using dne by (simp add: u last_rev)
  have "rev (takeWhile isspace (rev ?t) @ ?d) = ?t"
    by (simp only: takeWhile_dropWhile_id rev_rev_ident)
  then have "rev ?d @ rev (takeWhile isspace (rev ?t)) = ?t"
    by (simp only: rev_append)
  then have t: "?t = strip s @ rev (takeWhile isspace (rev ?t))"
    by (simp only: u)
  have "?t \<noteq> []"
  proof
    assume "?t = []"
    then have "strip s = []" by (simp only: strip_def) simp
    with assms show False by simp
  qed
  then have "\<not> isspace (hd ?t)" by (rule hd_dropWhile)
  moreover have "hd ?t = hd (strip s)" using assms by (subst t) simp
  ultimately show ?thesis using l by simp
qed

lemma strip_fixed:
  assumes "s \<noteq> []" "\<not> isspace (hd s)" "\<not> isspace (last s)"
  shows "strip s = s"
proof -
  have "dropWhile isspace s = s" using assms by (cases s) auto
  moreover have "dropWhile isspace (rev s) = rev s"
    using assms by (cases "rev s") (auto simp: last_rev [symmetric] hd_rev)
  ultimately show ?thesis by (simp add: strip_def)
qed

lemma strip_idem [simp]: "strip (strip s) = strip s"
proof (cases "strip s = []")
  case True
  then show ?thesis by simp
next
  case False
  then show ?thesis using strip_ends [OF False] by (intro strip_fixed) auto
qed

section \<open>Properties of the offset store\<close>

lemma load_set:
  "load_consumer_state_map (set_consumer_offset name k w) =
     (load_consumer_state_map w)(name \<mapsto> max 0 k)"
  by (auto simp: load_consumer_state_map_def set_consumer_offset_def Let_def fun_eq_iff
      split: option.splits)

text \<open>
  Claim C4, as the code has it: \<open>get\<close> right after \<open>set(name, k)\<close> returns \<open>max(0, k)\<close>,
  which is \<open>k\<close> for every \<open>k\<close> that is not negative, and \<open>set\<close> for one consumer leaves
  what \<open>get\<close> returns for every other consumer unchanged, whatever the state file holds.
\<close>

theorem set_then_get_offset:
  "get_consumer_offset name (set_consumer_offset name k w) = max 0 k \<and>
   (0 \<le> k \<longrightarrow> get_consumer_offset name (set_consumer_offset name k w) = k) \<and>
   (m \<noteq> name \<longrightarrow>
      get_consumer_offset m (set_consumer_offset name k w) = get_consumer_offset m w)"
  by (simp add: get_consumer_offset_def load_set)

theorem set_then_get_offset_witness:
  "get_consumer_offset (S ''a'')
     (set_consumer_offset (S ''a'') 7
        \<lparr>outbox = None, consumer_state = Dict [S ''b'' \<mapsto> IntLike 3], messages = []\<rparr>) = 7 \<and>
   get_consumer_offset (S ''b'')
     (set_consumer_offset (S ''a'') 7
        \<lparr>outbox = None, consumer_state = Dict [S ''b'' \<mapsto> IntLike 3], messages = []\<rparr>) = 3"
  using set_then_get_offset [of "S ''a''" 7
      "\<lparr>outbox = None, consumer_state = Dict [S ''b'' \<mapsto> IntLike 3], messages = []\<rparr>" "S ''b''"]
  by (simp add: get_consumer_offset_def load_consumer_state_map_def S_def)

text \<open>
  The round trip of claim C4 as it is stated, for every integer, fails at \<open>k = -1\<close>:
  \<open>set\<close> stores 0, and \<open>get\<close> returns 0.
\<close>

theorem set_negative_then_get:
  "get_consumer_offset (S ''c'') (set_consumer_offset (S ''c'') (- 1) empty_world) \<noteq> - 1"
  by (simp add: get_consumer_offset_def load_set)



section \<open>Properties of the message store\<close>

lemma insert_Inr:
  assumes "insert_message_from_payload L clk pv tid src cn w = Inr (res, w')"
  shows "\<exists>row. messages w' = messages w @ [row] \<and> outbox w' = outbox w \<and>
           consumer_state w' = consumer_state w \<and>
           is_duplicate row = (if message_id row \<in> message_id ` set (messages w) then 1 else 0) \<and>
           r_is_duplicate res = (message_id row \<in> message_id ` set (messages w)) \<and>
           r_message_id res = message_id row \<and> r_id res = row_id row \<and>
           (\<exists>p. pv = JObj p \<and> message_id row = field_str L p (S ''message_id''))"
  using assms
  by (auto simp: insert_message_from_payload_def Let_def split: json.splits if_splits)

lemma insert_seq_flags:
  "insert_seq L cs w0 = (rs, w) \<Longrightarrow>
   \<forall>r \<in> set (messages w0). is_duplicate r = 0 \<or> is_duplicate r = 1 \<Longrightarrow>
   \<forall>r \<in> set (messages w). is_duplicate r = 0 \<or> is_duplicate r = 1"
proof (induction cs arbitrary: w0 rs)
  case Nil
  then show ?case by simp
next
  case (Cons c cs)
  show ?case
  proof (cases "do_insert L c w0")
    case (Inl e)
    with Cons.prems obtain rs' where "insert_seq L cs w0 = (rs', w)"
      by (auto split: prod.splits)
    with Cons show ?thesis by blast
  next
    case (Inr p)
    obtain r w1 where p: "p = (r, w1)" by (cases p)
    with Inr Cons.prems obtain rs' where s: "insert_seq L cs w1 = (rs', w)"
      by (auto split: prod.splits)
    from Inr p obtain row where "messages w1 = messages w0 @ [row]"
      "is_duplicate row = (if message_id row \<in> message_id ` set (messages w0) then 1 else 0)"
      unfolding do_insert_def by (blast dest: insert_Inr)
    with Cons.prems(2) have "\<forall>r \<in> set (messages w1). is_duplicate r = 0 \<or> is_duplicate r = 1"
      by auto
    with Cons.IH [OF s] show ?thesis .
  qed
qed

lemma sum_flags:
  "\<forall>r \<in> set rows. is_duplicate r = 0 \<or> is_duplicate r = 1 \<Longrightarrow>
   sum_list (map is_duplicate rows) = int (length (filter (\<lambda>r. is_duplicate r \<noteq> 0) rows))"
  by (induction rows) auto

text \<open>
  Claim C7: after any sequence of inserts into a table whose rows satisfy the CHECK
  constraint of the column (the empty table does), the summary's \<open>db_duplicates\<close> is the
  number of rows whose \<open>is_duplicate\<close> flag is set, and \<open>db_total\<close> is the number of rows.
\<close>

theorem summary_counts:
  assumes "insert_seq L cs w0 = (rs, w)"
    and "\<forall>r \<in> set (messages w0). is_duplicate r = 0 \<or> is_duplicate r = 1"
  shows "db_duplicates (get_summary w)
           = int (length (filter (\<lambda>r. is_duplicate r \<noteq> 0) (messages w)))
       \<and> db_total (get_summary w) = length (messages w)"
  using sum_flags [OF insert_seq_flags [OF assms]] by (simp add: get_summary_def)

theorem summary_counts_witness:
  "db_duplicates (get_summary (snd (insert_seq lib0
      [call_of (payload_of (S ''abc'') (S ''hello'')),
       call_of (payload_of (S ''abc'') (S ''hello again''))] empty_world))) = 1 \<and>
   db_total (get_summary (snd (insert_seq lib0
      [call_of (payload_of (S ''abc'') (S ''hello'')),
       call_of (payload_of (S ''abc'') (S ''hello again''))] empty_world))) = 2"
proof -
  define cs where "cs = [call_of (payload_of (S ''abc'') (S ''hello'')),
       call_of (payload_of (S ''abc'') (S ''hello again''))]"
  define rs where "rs = fst (insert_seq lib0 cs empty_world)"
  define w where "w = snd (insert_seq lib0 cs empty_world)"
  have e: "insert_seq lib0 cs empty_world = (rs, w)"
    by (simp add: rs_def w_def)
  have h: "\<forall>r \<in> set (messages empty_world). is_duplicate r = 0 \<or> is_duplicate r = 1"
    by (simp add: empty_world_def)
  have m: "map is_duplicate (messages w) = [0, 1]"
    unfolding w_def cs_def by (simp add: eval_defs)
  have f: "length (filter (\<lambda>r. is_duplicate r \<noteq> 0) rows)
             = length (filter (\<lambda>d. d \<noteq> 0) (map is_duplicate rows))" for rows :: "message_row list"
    by (induction rows) auto
  have l: "length (messages w) = 2"
    using arg_cong [OF m, of length] by simp
  have "db_duplicates (get_summary w) = 1 \<and> db_total (get_summary w) = 2"
    using summary_counts [OF e h] by (simp only: f m l) simp
  then show ?thesis unfolding w_def cs_def .
qed








section \<open>Properties of payload creation\<close>

text \<open>
  Claim C5, as the code has it: \<open>create_payload\<close> raises for a content that is empty or
  whitespace only, and for a \<open>message_id\<close> that is not empty and whitespace only; an
  absent or empty \<open>message_id\<close> is replaced by the generated identifier.  Every payload
  it returns satisfies the invariant.  The producer writes nothing unless it returns 0,
  and what it appends then is a payload that satisfies the invariant.
\<close>

theorem create_payload_validation:
  "(strip (case content of None \<Rightarrow> [] | Some c \<Rightarrow> c) = [] \<longrightarrow>
      create_payload fresh now content mid pn un = Inl ContentRequired) \<and>
   (strip (case content of None \<Rightarrow> [] | Some c \<Rightarrow> c) \<noteq> [] \<and> mid = Some m \<and> m \<noteq> [] \<and> strip m = [] \<longrightarrow>
      create_payload fresh now content mid pn un = Inl MessageIdBlank) \<and>
   (strip (case content of None \<Rightarrow> [] | Some c \<Rightarrow> c) \<noteq> [] \<and> (mid = None \<or> mid = Some []) \<and>
    strip fresh \<noteq> [] \<longrightarrow>
      (\<exists>p. create_payload fresh now content mid pn un = Inr p \<and>
           map_of p (S ''message_id'') = Some (JStr (strip fresh)))) \<and>
   (create_payload fresh now content mid pn un = Inr p \<longrightarrow> payload_invariant p) \<and>
   (producer_main typed ids nows a w = (out, w') \<longrightarrow>
      (out \<noteq> Returned 0 \<longrightarrow> w' = w) \<and>
      (out = Returned 0 \<longrightarrow>
         (\<exists>q env. payload_invariant q \<and>
            append_outbox_message (snd ids) (snd nows) (JObj q) (p_source a) w = (env, w'))))"
proof -
  have inv: "create_payload f n c i pn' u = Inr q \<Longrightarrow> payload_invariant q" for f n c i pn' u q
    by (auto simp: create_payload_def payload_invariant_def Let_def S_def
        split: if_splits option.splits)
  have 5: "producer_main typed ids nows a w = (out, w') \<longrightarrow>
      (out \<noteq> Returned 0 \<longrightarrow> w' = w) \<and>
      (out = Returned 0 \<longrightarrow>
         (\<exists>q env. payload_invariant q \<and>
            append_outbox_message (snd ids) (snd nows) (JObj q) (p_source a) w = (env, w')))"
    by (auto simp: producer_main_def Let_def split: if_splits sum.splits prod.splits dest: inv)
  have 123: "(strip (case content of None \<Rightarrow> [] | Some c \<Rightarrow> c) = [] \<longrightarrow>
      create_payload fresh now content mid pn un = Inl ContentRequired) \<and>
   (strip (case content of None \<Rightarrow> [] | Some c \<Rightarrow> c) \<noteq> [] \<and> mid = Some m \<and> m \<noteq> [] \<and> strip m = [] \<longrightarrow>
      create_payload fresh now content mid pn un = Inl MessageIdBlank) \<and>
   (strip (case content of None \<Rightarrow> [] | Some c \<Rightarrow> c) \<noteq> [] \<and> (mid = None \<or> mid = Some []) \<and>
    strip fresh \<noteq> [] \<longrightarrow>
      (\<exists>p. create_payload fresh now content mid pn un = Inr p \<and>
           map_of p (S ''message_id'') = Some (JStr (strip fresh))))"
    by (auto simp: create_payload_def Let_def split: option.splits)
  from 123 5 inv [of fresh now content mid pn un p] show ?thesis by blast
qed

theorem create_payload_validation_witness:
  "create_payload (S ''6f1c'') (S ''now'') (Some (S ''  '')) (Some (S ''m1'')) (S ''p'') None
     = Inl ContentRequired \<and>
   create_payload (S ''6f1c'') (S ''now'') (Some (S ''hi'')) (Some (S ''  '')) (S ''p'') None
     = Inl MessageIdBlank \<and>
   producer_main None (S ''6f1c'', S ''77aa'') (S ''now'', S ''now'')
     \<lparr>p_content = Some (S ''hi''), p_message_id = Some (S ''  ''), p_producer_name = S ''p'',
      p_user_name = None, p_source = S ''producer-script''\<rparr> empty_world
     = (Raised MessageIdBlank, empty_world)"
proof -
  have 1: "strip (case Some (S ''  '') of None \<Rightarrow> [] | Some c \<Rightarrow> c) = []"
    by (simp add: S_def strip_def isspace_def)
  have 2: "strip (case Some (S ''hi'') of None \<Rightarrow> [] | Some c \<Rightarrow> c) \<noteq> []"
    "S ''  '' \<noteq> []" "strip (S ''  '') = []"
    by (simp_all add: S_def strip_def isspace_def)
  define a where "a = \<lparr>p_content = Some (S ''hi''), p_message_id = Some (S ''  ''),
      p_producer_name = S ''p'', p_user_name = None, p_source = S ''producer-script''\<rparr>"
  define r where "r = producer_main None (S ''6f1c'', S ''77aa'') (S ''now'', S ''now'') a empty_world"
  have 3: "fst r = Raised MessageIdBlank"
    unfolding r_def a_def
    by (simp add: producer_main_def create_payload_def S_def strip_def isspace_def)
  have "producer_main None (S ''6f1c'', S ''77aa'') (S ''now'', S ''now'') a empty_world
          = (fst r, snd r)"
    unfolding r_def by (rule prod.collapse [symmetric])
  with create_payload_validation
    [where typed = None and ids = "(S ''6f1c'', S ''77aa'')" and nows = "(S ''now'', S ''now'')"
       and a = a and w = empty_world and out = "fst r" and w' = "snd r"] 3
  have "snd r = empty_world" by simp
  with 3 have 4: "r = (Raised MessageIdBlank, empty_world)"
    by (metis prod.collapse)
  from create_payload_validation
    [where content = "Some (S ''  '')" and fresh = "S ''6f1c''" and now = "S ''now''"
       and mid = "Some (S ''m1'')" and pn = "S ''p''" and un = None] 1
  have 5: "create_payload (S ''6f1c'') (S ''now'') (Some (S ''  '')) (Some (S ''m1'')) (S ''p'') None
     = Inl ContentRequired"
    by blast
  from create_payload_validation
    [where content = "Some (S ''hi'')" and fresh = "S ''6f1c''" and now = "S ''now''"
       and mid = "Some (S ''  '')" and m = "S ''  ''" and pn = "S ''p''" and un = None] 2
  have 6: "create_payload (S ''6f1c'') (S ''now'') (Some (S ''hi'')) (Some (S ''  '')) (S ''p'') None
     = Inl MessageIdBlank"
    by blast
  from 4 5 6 show ?thesis unfolding r_def a_def by simp
qed

text \<open>
  Claim C5 as it is stated fails for an empty \<open>message_id\<close>: creation succeeds, with the
  generated identifier.
\<close>

theorem create_payload_empty_id:
  "create_payload (S ''6f1c'') (S ''2026-01-01T00:00:00Z'') (Some (S ''hello'')) (Some [])
     (S ''local-producer'') None
   = Inr [(S ''message_id'', JStr (S ''6f1c'')), (S ''content'', JStr (S ''hello'')),
          (S ''published_at'', JStr (S ''2026-01-01T00:00:00Z'')),
          (S ''producer_name'', JStr (S ''local-producer''))]"
  by (simp add: create_payload_def S_def strip_def isspace_def)

section \<open>Properties of the encoder\<close>

lemma and_15_less: "(x::nat) AND 15 < 16"
proof -
  have "x AND 15 = x AND mask 4" by (simp add: mask_eq_exp_minus_1)
  also have "\<dots> = take_bit 4 x" by (simp add: take_bit_eq_mask)
  also have "\<dots> < 2 ^ 4" by (rule take_bit_nat_less_exp)
  finally show ?thesis by simp
qed

lemma hex_digit_printable: "d < 16 \<Longrightarrow> printable (hex_digit d)"
  by (simp add: hex_digit_def printable_def)

lemma hex4_printable: "c \<in> set (hex4 n) \<Longrightarrow> printable c"
  by (auto simp: hex4_def intro!: hex_digit_printable and_15_less)

lemma escape_char_printable: "c \<in> set (escape_char x) \<Longrightarrow> printable c"
  by (auto simp: escape_char_def Let_def printable_def [of 92] printable_def [of 34]
      printable_def [of 98] printable_def [of 102] printable_def [of 110]
      printable_def [of 114] printable_def [of 116] printable_def [of 117] printable_def [of x]
      split: if_splits dest: hex4_printable)

lemma encode_str_printable: "c \<in> set (encode_str s) \<Longrightarrow> printable c"
  by (auto simp: encode_str_def printable_def [of 34] dest: escape_char_printable)

lemma digits_printable: "c \<in> set (digits n) \<Longrightarrow> printable c"
proof (induction n arbitrary: c rule: digits.induct)
  case (1 n)
  show ?case
  proof (cases "n < 10")
    case True
    with "1.prems" show ?thesis by (subst (asm) digits.simps) (simp add: printable_def)
  next
    case False
    with "1.prems" have "c \<in> set (digits (n div 10)) \<or> c = 48 + n mod 10"
      by (subst (asm) digits.simps) auto
    moreover have "n mod 10 < 10" by simp
    then have "printable (48 + n mod 10)" unfolding printable_def by linarith
    ultimately show ?thesis using "1.IH" [OF False] by blast
  qed
qed

lemma str_int_printable: "c \<in> set (str_int i) \<Longrightarrow> printable c"
  by (auto simp: str_int_def printable_def [of 45] dest: digits_printable split: if_splits)

lemma S_printable_lit:
  "c \<in> set (S ''null'') \<or> c \<in> set (S ''true'') \<or> c \<in> set (S ''false'') \<or> c \<in> set (S ''['')
   \<or> c \<in> set (S '']'') \<or> c \<in> set (S ''{'') \<or> c \<in> set (S ''}'') \<or> c \<in> set (S '', '')
   \<or> c \<in> set (S '': '') \<Longrightarrow> printable c"
  by (auto simp: S_def printable_def)

lemma join_set: "c \<in> set (join sep xs) \<Longrightarrow> c \<in> set sep \<or> (\<exists>x \<in> set xs. c \<in> set x)"
  by (induction sep xs rule: join.induct) auto

lemma json_dumps_printable: "c \<in> set (json_dumps v) \<Longrightarrow> printable c"
proof (induction v arbitrary: c rule: json_dumps.induct)
  case 1
  then show ?case by (auto intro: S_printable_lit)
next
  case (2 b)
  then show ?case by (auto intro: S_printable_lit split: if_splits)
next
  case (3 i)
  then show ?case by (auto dest: str_int_printable)
next
  case (4 s)
  then show ?case by (auto dest: encode_str_printable)
next
  case (5 xs)
  from "5.prems" have "c \<in> set (S ''['') \<or> c \<in> set (S '']'')
      \<or> c \<in> set (join (S '', '') (map json_dumps xs))"
    by auto
  then show ?case
  proof (elim disjE)
    assume "c \<in> set (join (S '', '') (map json_dumps xs))"
    then have "c \<in> set (S '', '') \<or> (\<exists>x \<in> set xs. c \<in> set (json_dumps x))"
      by (auto dest!: join_set)
    then show ?thesis using "5.IH" by (auto intro: S_printable_lit)
  qed (auto intro: S_printable_lit)
next
  case (6 kvs)
  let ?item = "\<lambda>kv. encode_str (fst kv) @ S '': '' @ json_dumps (snd kv)"
  from "6.prems" have "c \<in> set (S ''{'') \<or> c \<in> set (S ''}'')
      \<or> c \<in> set (join (S '', '') (map ?item (sort_key fst kvs)))"
    by auto
  then show ?case
  proof (elim disjE)
    assume "c \<in> set (join (S '', '') (map ?item (sort_key fst kvs)))"
    from join_set [OF this]
    have "c \<in> set (S '', '') \<or> (\<exists>x \<in> set (map ?item (sort_key fst kvs)). c \<in> set x)" .
    then show ?thesis
    proof
      assume "\<exists>x \<in> set (map ?item (sort_key fst kvs)). c \<in> set x"
      then obtain kv where kv: "kv \<in> set (sort_key fst kvs)" and "c \<in> set (?item kv)"
        by (auto simp del: set_sort)
      then have "c \<in> set (encode_str (fst kv)) \<or> c \<in> set (S '': '')
          \<or> c \<in> set (json_dumps (snd kv))"
        by auto
      then show ?thesis
        using "6.IH" [OF kv] by (auto dest: encode_str_printable intro: S_printable_lit)
    qed (auto intro: S_printable_lit)
  qed (auto intro: S_printable_lit)
qed

lemma json_dumps_no_newline: "10 \<notin> set (json_dumps v) \<and> 13 \<notin> set (json_dumps v)"
  using json_dumps_printable [of 10 v] json_dumps_printable [of 13 v]
  by (auto simp: printable_def)

lemma printable_not_space: "printable c \<Longrightarrow> c \<noteq> 32 \<Longrightarrow> \<not> isspace c"
  by (auto simp: printable_def isspace_def)

lemma insort_key_apsnd:
  "map (apsnd g) (insort_key fst x ys) = insort_key fst (apsnd g x) (map (apsnd g) ys)"
  by (induction ys) auto

lemma sort_key_apsnd:
  "map (apsnd g) (sort_key fst xs) = sort_key fst (map (apsnd g) xs)"
  by (induction xs) (simp_all add: insort_key_apsnd)

lemma dumps_obj_cong:
  assumes "map (apsnd json_dumps) kvs = map (apsnd json_dumps) kvs'"
  shows "json_dumps (JObj kvs) = json_dumps (JObj kvs')"
proof -
  let ?h = "\<lambda>ks. encode_str (fst ks) @ S '': '' @ snd ks"
  have "map (\<lambda>kv. encode_str (fst kv) @ S '': '' @ json_dumps (snd kv)) (sort_key fst xs)
      = map ?h (sort_key fst (map (apsnd json_dumps) xs))" for xs
    by (simp add: sort_key_apsnd [symmetric] comp_def)
  with assms show ?thesis by simp
qed

lemma dumps_obj_perm:
  assumes "mset kvs' = mset kvs" and "distinct (map fst kvs)"
  shows "json_dumps (JObj kvs') = json_dumps (JObj kvs)"
proof -
  from assms(2) have "inj_on fst (set kvs)" by (simp add: distinct_map)
  moreover from assms(1) have "set kvs' = set kvs" by (rule mset_eq_setD)
  ultimately have "inj_on fst (set kvs')" by simp
  with assms(1) have "sort_key fst kvs' = sort_key fst kvs" by (rule sort_key_eq_sort_key)
  then show ?thesis by simp
qed

lemma create_payload_keys: "create_payload f n c i pn u = Inr p \<Longrightarrow> distinct (map fst p)"
  by (auto simp: create_payload_def Let_def S_def split: if_splits option.splits)

lemma envelope_dumps:
  "json_dumps (JObj [(S ''transport_id'', JStr tid), (S ''queued_at'', JStr now),
                     (S ''source'', JStr src), (S ''payload'', pv)])
   = S ''{'' @ encode_str (S ''payload'') @ S '': '' @ json_dumps pv @ S '', ''
       @ encode_str (S ''queued_at'') @ S '': '' @ encode_str now @ S '', ''
       @ encode_str (S ''source'') @ S '': '' @ encode_str src @ S '', ''
       @ encode_str (S ''transport_id'') @ S '': '' @ encode_str tid @ S ''}''"
proof -
  have "sort_key fst [(S ''transport_id'', JStr tid), (S ''queued_at'', JStr now),
                     (S ''source'', JStr src), (S ''payload'', pv)]
      = [(S ''payload'', pv), (S ''queued_at'', JStr now), (S ''source'', JStr src),
         (S ''transport_id'', JStr tid)]"
    by (simp add: S_def)
  then show ?thesis by (simp only: json_dumps.simps list.map join.simps fst_conv snd_conv append_assoc)
qed

section \<open>Properties of the outbox\<close>

lemma split_lines_line:
  "10 \<notin> set l \<Longrightarrow> 13 \<notin> set l \<Longrightarrow>
   split_lines False acc (l @ 10 # rest) = (acc @ l @ [10]) # split_lines False [] rest"
  by (induction l arbitrary: acc) auto

lemma readlines_lines:
  "\<forall>l \<in> set ls. 10 \<notin> set l \<and> 13 \<notin> set l \<Longrightarrow>
   readlines (concat (map (\<lambda>l. l @ [10]) ls)) = map (\<lambda>l. l @ [10]) ls"
  unfolding readlines_def
  by (induction ls) (simp_all add: split_lines_line)

lemma strip_line:
  assumes "l \<noteq> []" "\<not> isspace (hd l)" "\<not> isspace (last l)"
  shows "strip (l @ [10]) = l"
proof -
  have "dropWhile isspace (l @ [10]) = l @ [10]" using assms by (cases l) auto
  moreover have "dropWhile isspace (rev l) = rev l"
    using assms by (cases "rev l") (auto simp: last_rev [symmetric] hd_rev)
  moreover have "isspace 10" by (simp add: isspace_def)
  ultimately show ?thesis by (simp add: strip_def)
qed

lemma json_dumps_obj_ends:
  "json_dumps (JObj kvs) \<noteq> [] \<and> hd (json_dumps (JObj kvs)) = 123 \<and>
   last (json_dumps (JObj kvs)) = 125"
  by (simp add: S_def)

lemma strip_dumps_obj: "strip (json_dumps (JObj kvs) @ [10]) = json_dumps (JObj kvs)"
  using json_dumps_obj_ends [of kvs] by (intro strip_line) (auto simp: isspace_def)

text \<open>
  Claim C8: the line \<open>append_outbox_message\<close> writes for a payload that
  \<open>create_payload\<close> returned is the encoded envelope followed by one newline; the
  encoding holds printable ASCII only, so no newline and no carriage return, and reads
  back as one line.  Its keys come in sorted order (\<open>payload\<close>, \<open>queued_at\<close>, \<open>source\<close>,
  \<open>transport_id\<close>), and it is the same for every insertion order of the fields of the
  envelope and of the payload.
\<close>

theorem outbox_line_encoding:
  assumes "create_payload fresh1 now1 content mid pn un = Inr p"
    and "append_outbox_message fresh2 now2 (JObj p) src w = (env, w')"
  shows "outbox w' = Some ((case outbox w of None \<Rightarrow> [] | Some t \<Rightarrow> t) @ json_dumps env @ [10]) \<and>
     10 \<notin> set (json_dumps env) \<and> 13 \<notin> set (json_dumps env) \<and>
     (\<forall>c \<in> set (json_dumps env). 32 \<le> c \<and> c \<le> 126) \<and>
     readlines (json_dumps env @ [10]) = [json_dumps env @ [10]] \<and>
     json_dumps env
       = S ''{'' @ encode_str (S ''payload'') @ S '': '' @ json_dumps (JObj p) @ S '', ''
         @ encode_str (S ''queued_at'') @ S '': '' @ encode_str now2 @ S '', ''
         @ encode_str (S ''source'') @ S '': '' @ encode_str src @ S '', ''
         @ encode_str (S ''transport_id'') @ S '': '' @ encode_str fresh2 @ S ''}'' \<and>
     (\<forall>p' e'. mset p' = mset p \<and>
         mset e' = mset [(S ''transport_id'', JStr fresh2), (S ''queued_at'', JStr now2),
                         (S ''source'', JStr src), (S ''payload'', JObj p')]
         \<longrightarrow> json_dumps (JObj e') = json_dumps env)"
proof -
  let ?E = "\<lambda>pv. [(S ''transport_id'', JStr fresh2), (S ''queued_at'', JStr now2),
                 (S ''source'', JStr src), (S ''payload'', pv)]"
  from assms(2) have env: "env = JObj (?E (JObj p))"
    and w': "outbox w' = Some ((case outbox w of None \<Rightarrow> [] | Some t \<Rightarrow> t) @ json_dumps env @ [10])"
    by (auto simp: append_outbox_message_def Let_def)
  have nl: "10 \<notin> set (json_dumps env)" "13 \<notin> set (json_dumps env)"
    using json_dumps_no_newline [of env] by simp_all
  have pr: "\<forall>c \<in> set (json_dumps env). 32 \<le> c \<and> c \<le> 126"
    using json_dumps_printable [of _ env] by (auto simp: printable_def)
  have rl: "readlines (json_dumps env @ [10]) = [json_dumps env @ [10]]"
    using readlines_lines [of "[json_dumps env]"] nl by simp
  have ex: "json_dumps env
       = S ''{'' @ encode_str (S ''payload'') @ S '': '' @ json_dumps (JObj p) @ S '', ''
         @ encode_str (S ''queued_at'') @ S '': '' @ encode_str now2 @ S '', ''
         @ encode_str (S ''source'') @ S '': '' @ encode_str src @ S '', ''
         @ encode_str (S ''transport_id'') @ S '': '' @ encode_str fresh2 @ S ''}''"
    unfolding env by (rule envelope_dumps)
  have dk: "distinct (map fst (?E pv))" for pv
    by (simp add: S_def)
  have perm: "json_dumps (JObj e') = json_dumps env"
    if "mset p' = mset p" "mset e' = mset (?E (JObj p'))" for p' e'
  proof -
    have "json_dumps (JObj e') = json_dumps (JObj (?E (JObj p')))"
      using that(2) dk by (rule dumps_obj_perm)
    also have "json_dumps (JObj p') = json_dumps (JObj p)"
      using that(1) create_payload_keys [OF assms(1)] by (rule dumps_obj_perm)
    then have "json_dumps (JObj (?E (JObj p'))) = json_dumps (JObj (?E (JObj p)))"
      by (intro dumps_obj_cong) (simp only: list.map apsnd_conv json_dumps.simps(4))
    finally show ?thesis by (simp only: env)
  qed
  from w' nl pr rl ex perm show ?thesis by blast
qed

theorem outbox_line_encoding_witness:
  "create_payload (S ''u'') (S ''t'') (Some [97, 10, 98]) (Some (S ''m1'')) (S ''p'') None
     = Inr [(S ''message_id'', JStr (S ''m1'')), (S ''content'', JStr [97, 10, 98]),
            (S ''published_at'', JStr (S ''t'')), (S ''producer_name'', JStr (S ''p''))] \<and>
   10 \<notin> set (json_dumps (fst (append_outbox_message (S ''i1'') (S ''t2'')
      (JObj [(S ''message_id'', JStr (S ''m1'')), (S ''content'', JStr [97, 10, 98]),
             (S ''published_at'', JStr (S ''t'')), (S ''producer_name'', JStr (S ''p''))])
      (S ''s'') empty_world))) \<and>
   outbox (snd (append_outbox_message (S ''i1'') (S ''t2'')
      (JObj [(S ''message_id'', JStr (S ''m1'')), (S ''content'', JStr [97, 10, 98]),
             (S ''published_at'', JStr (S ''t'')), (S ''producer_name'', JStr (S ''p''))])
      (S ''s'') empty_world))
     = Some (json_dumps (fst (append_outbox_message (S ''i1'') (S ''t2'')
      (JObj [(S ''message_id'', JStr (S ''m1'')), (S ''content'', JStr [97, 10, 98]),
             (S ''published_at'', JStr (S ''t'')), (S ''producer_name'', JStr (S ''p''))])
      (S ''s'') empty_world)) @ [10])"
proof -
  define p where "p = [(S ''message_id'', JStr (S ''m1'')), (S ''content'', JStr [97, 10, 98]),
            (S ''published_at'', JStr (S ''t'')), (S ''producer_name'', JStr (S ''p''))]"
  define r where "r = append_outbox_message (S ''i1'') (S ''t2'') (JObj p) (S ''s'') empty_world"
  have c: "create_payload (S ''u'') (S ''t'') (Some [97, 10, 98]) (Some (S ''m1'')) (S ''p'') None
     = Inr p"
    unfolding p_def by (simp add: create_payload_def S_def strip_def isspace_def)
  have a: "append_outbox_message (S ''i1'') (S ''t2'') (JObj p) (S ''s'') empty_world = (fst r, snd r)"
    unfolding r_def by (rule prod.collapse [symmetric])
  from outbox_line_encoding [OF c a]
  have "10 \<notin> set (json_dumps (fst r))"
    "outbox (snd r) = Some ((case outbox empty_world of None \<Rightarrow> [] | Some t \<Rightarrow> t)
        @ json_dumps (fst r) @ [10])"
    by blast+
  then have "10 \<notin> set (json_dumps (fst r))" "outbox (snd r) = Some (json_dumps (fst r) @ [10])"
    by (simp_all add: empty_world_def)
  with c show ?thesis unfolding r_def p_def by simp
qed


lemma iter_outbox_alt:
  "iter_outbox_from_line L w s
     = scan_lines L s (enumerate 1 (readlines (case outbox w of None \<Rightarrow> [] | Some t \<Rightarrow> t)))"
  by (simp add: iter_outbox_from_line_def readlines_def split: option.splits)

lemma scan_skip:
  "int m \<le> s \<or> strip l = [] \<Longrightarrow> scan_lines L s ((m, l) # ls) = scan_lines L s ls"
  by (auto simp: Let_def)

lemma scan_bad:
  "\<not> (int m \<le> s \<or> strip l = []) \<Longrightarrow> json_loads L (strip l) = None \<Longrightarrow>
   scan_lines L s ((m, l) # ls) = ([], Some (InvalidJson m))"
  by (auto simp: Let_def)

lemma scan_good:
  "\<not> (int m \<le> s \<or> strip l = []) \<Longrightarrow> json_loads L (strip l) = Some v \<Longrightarrow>
   scan_lines L s ls = (ys, e) \<Longrightarrow>
   scan_lines L s ((m, l) # ls) = ((m, v) # ys, e)"
  by (auto simp: Let_def)


lemma scan_lines_items:
  "scan_lines L s ls = (items, err) \<Longrightarrow> (n, e) \<in> set items \<Longrightarrow>
   s < int n \<and> (\<exists>l. (n, l) \<in> set ls \<and> strip l \<noteq> [] \<and> json_loads L (strip l) = Some e)"
proof (induction ls arbitrary: items err)
  case Nil
  then show ?case by simp
next
  case (Cons x ls)
  obtain m l where x: "x = (m, l)" by (cases x)
  show ?case
  proof (cases "int m \<le> s \<or> strip l = []")
    case True
    with Cons.prems have "scan_lines L s ls = (items, err)"
      by (simp only: x scan_skip)
    from Cons.IH [OF this Cons.prems(2)] show ?thesis by auto
  next
    case False
    show ?thesis
    proof (cases "json_loads L (strip l)")
      case None
      with False Cons.prems show ?thesis by (simp add: x scan_bad del: scan_lines.simps)
    next
      case (Some v)
      obtain ys er where r: "scan_lines L s ls = (ys, er)" by (cases "scan_lines L s ls")
      with False Some Cons.prems have items: "items = (m, v) # ys"
        by (simp add: x scan_good del: scan_lines.simps)
      show ?thesis
      proof (cases "(n, e) = (m, v)")
        case True
        with False Some show ?thesis by (auto simp: x)
      next
        case False
        with items Cons.prems(2) have "(n, e) \<in> set ys" by auto
        from Cons.IH [OF r this] show ?thesis by auto
      qed
    qed
  qed
qed







section \<open>Properties of the consumer\<close>

lemma insert_error_Some:
  "insert_error L pv tid src = Some e \<Longrightarrow> insert_message_from_payload L clk pv tid src cn w = Inl e"
  by (auto simp: insert_error_def insert_message_from_payload_def Let_def
      split: json.splits if_splits)

lemma insert_error_None:
  "insert_error L pv tid src = None \<Longrightarrow>
   \<exists>res row. insert_message_from_payload L clk pv tid src cn w
      = Inr (res, w\<lparr>messages := messages w @ [row]\<rparr>)"
  by (auto simp: insert_error_def insert_message_from_payload_def Let_def
      split: json.splits if_splits)

lemma entry_error_not_json: "entry_error L envelope \<noteq> Some (InvalidJson m)"
  by (auto simp: entry_error_def insert_error_def Let_def split: json.splits if_splits)

lemma consume_break:
  "batch_size a \<noteq> 0 \<and> batch_size a \<le> int (processed st) \<Longrightarrow>
   consume L clock a (x # rest) gerr st = (None, st)"
  by (cases x) simp

lemma consume_fail:
  assumes "\<not> (batch_size a \<noteq> 0 \<and> batch_size a \<le> int (processed st))"
    and "entry_error L (snd x) = Some e"
  shows "consume L clock a (x # rest) gerr st = (Some e, st)"
proof -
  obtain n envelope where x: "x = (n, envelope)" by (cases x)
  show ?thesis
  proof (cases "\<exists>env. envelope = JObj env")
    case False
    with assms(2) have "e = AttributeError"
      by (auto simp: entry_error_def x split: json.splits)
    with False assms(1) show ?thesis
      by (cases envelope) (auto simp: x)
  next
    case True
    then obtain env where env: "envelope = JObj env" by blast
    define payload where "payload = (let p = dict_get env (S ''payload'') JNull
                                     in if truthy p then p else JObj [])"
    from assms(2) have "insert_error L payload (dict_get env (S ''transport_id'') JNull)
        (dict_get env (S ''source'') JNull) = Some e"
      by (simp add: entry_error_def x env payload_def Let_def)
    from insert_error_Some [OF this, of "clock n" "consumer_name a" "world st"]
    show ?thesis
      using assms(1) by (simp add: x env payload_def Let_def)
  qed
qed

lemma consume_ok:
  assumes "\<not> (batch_size a \<noteq> 0 \<and> batch_size a \<le> int (processed st))"
    and "entry_error L (snd x) = None"
  shows "\<exists>st' row. consume L clock a (x # rest) gerr st = consume L clock a rest gerr st' \<and>
           processed st' = Suc (processed st) \<and> latest_offset st' = int (fst x) \<and>
           world st' = set_consumer_offset (consumer_name a) (int (fst x))
                         ((world st)\<lparr>messages := messages (world st) @ [row]\<rparr>)"
proof -
  obtain n envelope where x: "x = (n, envelope)" by (cases x)
  from assms(2) obtain env where env: "envelope = JObj env"
    by (auto simp: entry_error_def x split: json.splits)
  define payload where "payload = (let p = dict_get env (S ''payload'') JNull
                                   in if truthy p then p else JObj [])"
  from assms(2) have "insert_error L payload (dict_get env (S ''transport_id'') JNull)
      (dict_get env (S ''source'') JNull) = None"
    by (simp add: entry_error_def x env payload_def Let_def)
  from insert_error_None [OF this, of "clock n" "consumer_name a" "world st"]
  obtain res row where i: "insert_message_from_payload L (clock n) payload
      (dict_get env (S ''transport_id'') JNull) (dict_get env (S ''source'') JNull)
      (consumer_name a) (world st)
      = Inr (res, (world st)\<lparr>messages := messages (world st) @ [row]\<rparr>)"
    by blast
  define st' where "st' = \<lparr>processed = processed st + 1,
      duplicates = (if r_is_duplicate res then duplicates st + 1 else duplicates st),
      latest_offset = int n,
      world = set_consumer_offset (consumer_name a) (int n)
                ((world st)\<lparr>messages := messages (world st) @ [row]\<rparr>)\<rparr>"
  have "consume L clock a (x # rest) gerr st = consume L clock a rest gerr st'"
    using assms(1) i by (auto simp: x env payload_def Let_def st'_def)
  then show ?thesis
    by (intro exI [of _ st'] exI [of _ row]) (simp add: st'_def x)
qed


lemma set_offset_world:
  "outbox (set_consumer_offset name k w) = outbox w \<and>
   messages (set_consumer_offset name k w) = messages w"
  by (simp add: set_consumer_offset_def Let_def)

lemma get_set_offset: "get_consumer_offset name (set_consumer_offset name (int n) w) = int n"
  by (simp add: get_consumer_offset_def load_set)

lemma consume_run:
  "consume L clock a items gerr st = (res, st') \<Longrightarrow>
   \<exists>pre post new.
     items = pre @ post \<and> (\<forall>x \<in> set pre. entry_error L (snd x) = None) \<and>
     processed st' = processed st + length pre \<and>
     outbox (world st') = outbox (world st) \<and>
     messages (world st') = messages (world st) @ new \<and> length new = length pre \<and>
     (pre = [] \<longrightarrow> st' = st) \<and>
     (pre \<noteq> [] \<longrightarrow> latest_offset st' = int (fst (last pre)) \<and>
        get_consumer_offset (consumer_name a) (world st') = int (fst (last pre)) \<and>
        (batch_size a = 0 \<or> int (processed st') \<le> batch_size a)) \<and>
     ((post = [] \<and> res = gerr) \<or>
      (post \<noteq> [] \<and> res \<noteq> None \<and> res = entry_error L (snd (hd post))) \<or>
      (post \<noteq> [] \<and> res = None \<and> batch_size a \<noteq> 0 \<and> batch_size a \<le> int (processed st')))"
proof (induction items arbitrary: st)
  case Nil
  then show ?case by simp
next
  case (Cons x rest)
  let ?brk = "batch_size a \<noteq> 0 \<and> batch_size a \<le> int (processed st)"
  show ?case
  proof (cases ?brk)
    case True
    from consume_break [OF True] Cons.prems have "res = None" "st' = st" by simp_all
    with True show ?thesis
      by (intro exI [of _ "[]"] exI [of _ "x # rest"]) simp
  next
    case nb: False
    show ?thesis
    proof (cases "entry_error L (snd x)")
      case (Some e)
      from consume_fail [OF nb Some] Cons.prems have "res = Some e" "st' = st" by simp_all
      with Some show ?thesis
        by (intro exI [of _ "[]"] exI [of _ "x # rest"]) simp
    next
      case None
      from consume_ok [OF nb None, of clock rest gerr] obtain st1 row where
        c: "consume L clock a (x # rest) gerr st = consume L clock a rest gerr st1"
        and p1: "processed st1 = Suc (processed st)" and l1: "latest_offset st1 = int (fst x)"
        and w1: "world st1 = set_consumer_offset (consumer_name a) (int (fst x))
                         ((world st)\<lparr>messages := messages (world st) @ [row]\<rparr>)"
        by blast
      from c Cons.prems have "consume L clock a rest gerr st1 = (res, st')" by simp
      from Cons.IH [OF this] obtain pre post new where ih:
        "rest = pre @ post" "\<forall>x \<in> set pre. entry_error L (snd x) = None"
        "processed st' = processed st1 + length pre"
        "outbox (world st') = outbox (world st1)"
        "messages (world st') = messages (world st1) @ new" "length new = length pre"
        "pre = [] \<longrightarrow> st' = st1"
        "pre \<noteq> [] \<longrightarrow> latest_offset st' = int (fst (last pre)) \<and>
           get_consumer_offset (consumer_name a) (world st') = int (fst (last pre)) \<and>
           (batch_size a = 0 \<or> int (processed st') \<le> batch_size a)"
        "(post = [] \<and> res = gerr) \<or>
         (post \<noteq> [] \<and> res \<noteq> None \<and> res = entry_error L (snd (hd post))) \<or>
         (post \<noteq> [] \<and> res = None \<and> batch_size a \<noteq> 0 \<and> batch_size a \<le> int (processed st'))"
        by blast
      have o1: "outbox (world st1) = outbox (world st)"
        and m1: "messages (world st1) = messages (world st) @ [row]"
        and g1: "get_consumer_offset (consumer_name a) (world st1) = int (fst x)"
        by (simp_all add: w1 set_offset_world get_set_offset)
      have b1: "batch_size a = 0 \<or> int (processed st1) \<le> batch_size a"
        using nb p1 by auto
      have last: "latest_offset st' = int (fst (last (x # pre))) \<and>
           get_consumer_offset (consumer_name a) (world st') = int (fst (last (x # pre))) \<and>
           (batch_size a = 0 \<or> int (processed st') \<le> batch_size a)"
      proof (cases "pre = []")
        case True
        with ih(7) have "st' = st1" by simp
        with True l1 g1 b1 show ?thesis by simp
      next
        case False
        with ih(8) show ?thesis by simp
      qed
      show ?thesis
        using ih(1,2,3,4,5,6,9) None p1 o1 m1 last
        by (intro exI [of _ "x # pre"] exI [of _ post] exI [of _ "row # new"]) simp
    qed
  qed
qed

lemma scan_same:
  "\<forall>x \<in> set ls. s < int (fst x) \<and> s' < int (fst x) \<Longrightarrow> scan_lines L s ls = scan_lines L s' ls"
  by (induction ls) (auto simp: Let_def split: option.splits)

lemma scan_resume:
  "scan_lines L s ls = (pre @ post, err) \<Longrightarrow> pre \<noteq> [] \<Longrightarrow> sorted_wrt (<) (map fst ls) \<Longrightarrow>
   scan_lines L (int (fst (last pre))) ls = (post, err)"
proof (induction ls arbitrary: pre)
  case Nil
  then show ?case by simp
next
  case (Cons x ls)
  obtain m l where x: "x = (m, l)" by (cases x)
  from Cons.prems(3) have sl: "sorted_wrt (<) (map fst ls)" and lt: "\<forall>y \<in> set ls. m < fst y"
    by (auto simp: x)
  have below: "int m \<le> int (fst (last q))"
    if "scan_lines L s ls = (q @ post, err)" "q \<noteq> []" for q
  proof -
    from that(2) have "(fst (last q), snd (last q)) \<in> set (q @ post)" by simp
    from scan_lines_items [OF that(1) this] obtain l' where "(fst (last q), l') \<in> set ls"
      by blast
    with lt show ?thesis by force
  qed
  show ?case
  proof (cases "int m \<le> s \<or> strip l = []")
    case True
    with Cons.prems(1) have r: "scan_lines L s ls = (pre @ post, err)"
      by (simp only: x scan_skip)
    from Cons.IH [OF r Cons.prems(2) sl] below [OF r Cons.prems(2)]
    show ?thesis by (simp add: x scan_skip del: scan_lines.simps)
  next
    case False
    show ?thesis
    proof (cases "json_loads L (strip l)")
      case None
      with False Cons.prems show ?thesis by (simp add: x scan_bad del: scan_lines.simps)
    next
      case (Some v)
      obtain ys er where r: "scan_lines L s ls = (ys, er)" by (cases "scan_lines L s ls")
      with False Some Cons.prems(1) have items: "pre @ post = (m, v) # ys" "er = err"
        by (simp_all add: x scan_good del: scan_lines.simps)
      with Cons.prems(2) obtain pre' where pre: "pre = (m, v) # pre'" "ys = pre' @ post"
        by (cases pre) auto
      show ?thesis
      proof (cases "pre' = []")
        case True
        have "\<forall>y \<in> set ls. s < int (fst y) \<and> int m < int (fst y)"
          using lt False by auto
        then have "scan_lines L (int m) ls = scan_lines L s ls"
          by (intro scan_same) auto
        with r pre True items(2) show ?thesis
          by (simp add: x scan_skip del: scan_lines.simps)
      next
        case ne: False
        from r pre items have r': "scan_lines L s ls = (pre' @ post, err)" by simp
        from Cons.IH [OF r' ne sl] below [OF r' ne] ne
        show ?thesis by (simp add: x pre scan_skip del: scan_lines.simps)
      qed
    qed
  qed
qed

lemma scan_error:
  "scan_lines L s ls = (items, Some e) \<Longrightarrow> sorted_wrt (<) (map fst ls) \<Longrightarrow>
   \<exists>m l. e = InvalidJson m \<and> (m, l) \<in> set ls \<and> s < int m \<and> strip l \<noteq> [] \<and>
         json_loads L (strip l) = None \<and> (\<forall>x \<in> set items. fst x < m)"
proof (induction ls arbitrary: items)
  case Nil
  then show ?case by simp
next
  case (Cons x ls)
  obtain m l where x: "x = (m, l)" by (cases x)
  from Cons.prems(2) have sl: "sorted_wrt (<) (map fst ls)" and lt: "\<forall>y \<in> set ls. m < fst y"
    by (auto simp: x)
  show ?case
  proof (cases "int m \<le> s \<or> strip l = []")
    case True
    with Cons.prems(1) have "scan_lines L s ls = (items, Some e)"
      by (simp only: x scan_skip)
    from Cons.IH [OF this sl] show ?thesis by auto
  next
    case False
    show ?thesis
    proof (cases "json_loads L (strip l)")
      case None
      with False Cons.prems(1) have "items = []" "e = InvalidJson m"
        by (simp_all add: x scan_bad del: scan_lines.simps)
      with False None show ?thesis by (auto simp: x)
    next
      case (Some v)
      obtain ys er where r: "scan_lines L s ls = (ys, er)" by (cases "scan_lines L s ls")
      with False Some Cons.prems(1) have items: "items = (m, v) # ys" "er = Some e"
        by (simp_all add: x scan_good del: scan_lines.simps)
      from Cons.IH [OF r [unfolded items(2)] sl] obtain m' l' where
        m': "e = InvalidJson m'" "(m', l') \<in> set ls" "s < int m'" "strip l' \<noteq> []"
        "json_loads L (strip l') = None" "\<forall>x \<in> set ys. fst x < m'"
        by blast
      from lt m'(2) have "m < m'" by force
      with m' show ?thesis by (auto simp: items x)
    qed
  qed
qed

lemma main_status_only:
  "status_only a \<Longrightarrow>
   main L clock a w0 = \<lparr>outcome = Returned 0, caught = None, final = start_state a w0\<rparr>"
  by (simp add: main_def start_state_def start_offset_def start_world_def Let_def)

lemma main_loop:
  assumes "\<not> status_only a" and "pending L a w0 = (items, gerr)"
    and "consume L clock a items gerr (start_state a w0) = (res, st)"
  shows "final (main L clock a w0) = st \<and>
         caught (main L clock a w0) = (case res of None \<Rightarrow> None
                                        | Some e \<Rightarrow> if is_ValueError e then Some e else None) \<and>
         outcome (main L clock a w0) = (case res of None \<Rightarrow> Returned 0
                                        | Some e \<Rightarrow> if is_ValueError e then Returned 1 else Raised e)"
  using assms
  by (simp add: main_def pending_def start_state_def start_offset_def start_world_def Let_def
      split: option.splits)

lemma start_world_outbox:
  "outbox (start_world a w0) = outbox w0 \<and> messages (start_world a w0) = messages w0"
  by (simp add: start_world_def set_offset_world)

lemma pending_scan:
  "pending L a w0 = scan_lines L (start_offset a w0)
     (enumerate 1 (readlines (case outbox w0 of None \<Rightarrow> [] | Some t \<Rightarrow> t)))"
  by (simp add: pending_def iter_outbox_alt start_world_outbox)

lemma sorted_enumerate: "sorted_wrt (<) (map fst (enumerate 1 xs))"
  by (simp only: map_fst_enumerate sorted_wrt_upt)

lemma main_invariant:
  "get_consumer_offset (consumer_name a) (world (final (main L clock a w0)))
     = latest_offset (final (main L clock a w0)) \<and>
   outbox (world (final (main L clock a w0))) = outbox w0 \<and>
   (\<exists>new. messages (world (final (main L clock a w0))) = messages w0 @ new \<and>
          length new = processed (final (main L clock a w0)))"
proof (cases "status_only a")
  case True
  then show ?thesis
    by (simp add: main_status_only start_state_def start_offset_def start_world_outbox)
next
  case False
  obtain items gerr where p: "pending L a w0 = (items, gerr)" by (cases "pending L a w0")
  obtain res st where c: "consume L clock a items gerr (start_state a w0) = (res, st)"
    by (cases "consume L clock a items gerr (start_state a w0)")
  from main_loop [OF False p c] have f: "final (main L clock a w0) = st" by simp
  from consume_run [OF c] obtain pre post new where r0: "items = pre @ post" and r:
    "processed st = processed (start_state a w0) + length pre"
    "outbox (world st) = outbox (world (start_state a w0))"
    "messages (world st) = messages (world (start_state a w0)) @ new" "length new = length pre"
    "pre = [] \<longrightarrow> st = start_state a w0"
    "pre \<noteq> [] \<longrightarrow> latest_offset st = int (fst (last pre)) \<and>
        get_consumer_offset (consumer_name a) (world st) = int (fst (last pre)) \<and>
        (batch_size a = 0 \<or> int (processed st) \<le> batch_size a)"
    by (elim exE conjE) (rule that; assumption)
  have "get_consumer_offset (consumer_name a) (world st) = latest_offset st"
    using r(5,6) by (cases "pre = []") (simp_all add: start_state_def start_offset_def)
  moreover have "outbox (world st) = outbox w0"
    using r(2) by (simp add: start_state_def start_world_outbox)
  moreover have "messages (world st) = messages w0 @ new \<and> length new = processed st"
    using r(1,3,4) by (simp add: start_state_def start_world_outbox)
  ultimately show ?thesis unfolding f by blast
qed

lemma main_all_ok:
  assumes ns: "\<not> status_only a" and p: "pending L a w0 = (items, gerr)"
    and ok: "\<forall>x \<in> set items. entry_error L (snd x) = None"
    and k: "k = (if batch_size a = 0 then length items
                 else min (length items) (nat (batch_size a)))"
  shows "processed (final (main L clock a w0)) = k \<and>
         get_consumer_offset (consumer_name a) (world (final (main L clock a w0)))
           = (if k = 0 then start_offset a w0 else int (fst (items ! (k - 1)))) \<and>
         (batch_size a = 0 \<longrightarrow>
            caught (main L clock a w0)
              = (case gerr of None \<Rightarrow> None
                 | Some e \<Rightarrow> if is_ValueError e then Some e else None))"
proof -
  obtain res st where c: "consume L clock a items gerr (start_state a w0) = (res, st)"
    by (cases "consume L clock a items gerr (start_state a w0)")
  note ml = main_loop [OF ns p c]
  from consume_run [OF c] obtain pre post new where r:
    "items = pre @ post" "\<forall>x \<in> set pre. entry_error L (snd x) = None"
    "processed st = processed (start_state a w0) + length pre"
    "outbox (world st) = outbox (world (start_state a w0))"
    "messages (world st) = messages (world (start_state a w0)) @ new" "length new = length pre"
    "pre = [] \<longrightarrow> st = start_state a w0"
    "pre \<noteq> [] \<longrightarrow> latest_offset st = int (fst (last pre)) \<and>
        get_consumer_offset (consumer_name a) (world st) = int (fst (last pre)) \<and>
        (batch_size a = 0 \<or> int (processed st) \<le> batch_size a)"
    "(post = [] \<and> res = gerr) \<or>
      (post \<noteq> [] \<and> res \<noteq> None \<and> res = entry_error L (snd (hd post))) \<or>
      (post \<noteq> [] \<and> res = None \<and> batch_size a \<noteq> 0 \<and> batch_size a \<le> int (processed st))"
    by (elim exE conjE) (rule that; assumption)
  have pr: "processed st = length pre"
    using r(3) by (simp add: start_state_def)
  have noerr: "\<not> (post \<noteq> [] \<and> res \<noteq> None \<and> res = entry_error L (snd (hd post)))"
  proof
    assume e: "post \<noteq> [] \<and> res \<noteq> None \<and> res = entry_error L (snd (hd post))"
    then have "hd post \<in> set items" by (simp add: r(1))
    with ok have "entry_error L (snd (hd post)) = None" by blast
    with e show False by auto
  qed
  have len: "length pre = k"
  proof (cases "post = []")
    case True
    with r(1) have "pre = items" by simp
    with r(8) pr k show ?thesis by (cases "items = []") auto
  next
    case False
    with r(9) noerr have b: "batch_size a \<noteq> 0" "batch_size a \<le> int (length pre)"
      by (auto simp: pr)
    from False r(1) have lt: "length pre < length items" by simp
    show ?thesis
    proof (cases "pre = []")
      case True
      with b k show ?thesis by simp
    next
      case ne: False
      with r(8) b(1) have "int (length pre) \<le> batch_size a" by (simp add: pr)
      with b have "batch_size a = int (length pre)" by simp
      with lt k b(1) show ?thesis by simp
    qed
  qed
  have pre: "pre = take k items"
    using r(1) len by simp
  have off: "get_consumer_offset (consumer_name a) (world st)
      = (if k = 0 then start_offset a w0 else int (fst (items ! (k - 1))))"
  proof (cases "k = 0")
    case True
    with len r(7) show ?thesis by (simp add: start_state_def start_offset_def)
  next
    case False
    with len have ne: "pre \<noteq> []" by auto
    have "k \<le> length items" using r(1) len by simp
    with False have tk: "take k items \<noteq> []" "length (take k items) = k" by auto
    from tk(1) have "last (take k items) = take k items ! (length (take k items) - 1)"
      by (rule last_conv_nth)
    with tk(2) False have "last (take k items) = items ! (k - 1)"
      by simp
    with r(8) ne False show ?thesis by (simp add: pre)
  qed
  have "batch_size a = 0 \<longrightarrow> res = gerr"
    using r(9) noerr by auto
  with ml pr len off show ?thesis by auto
qed

lemma test_world_lines:
  assumes "\<forall>l \<in> set ls. 10 \<notin> set l \<and> 13 \<notin> set l"
  shows "outbox (test_world ls) = Some (concat (map (\<lambda>l. l @ [10]) ls)) \<and>
         readlines (concat (map (\<lambda>l. l @ [10]) ls)) = map (\<lambda>l. l @ [10]) ls"
  using readlines_lines [OF assms] by (simp add: test_world_def)

lemma test_envelope_strip:
  "strip (json_dumps (test_envelope i m c) @ [10]) = json_dumps (test_envelope i m c) \<and>
   json_dumps (test_envelope i m c) \<noteq> [] \<and>
   json_dumps (test_envelope i m c) \<noteq> S ''not json'' \<and>
   10 \<notin> set (json_dumps (test_envelope i m c)) \<and> 13 \<notin> set (json_dumps (test_envelope i m c))"
proof -
  obtain kvs where e: "test_envelope i m c = JObj kvs" by (simp add: test_envelope_def)
  have "hd (S ''not json'') = 110" by (simp add: S_def)
  with json_dumps_obj_ends [of kvs] have "json_dumps (JObj kvs) \<noteq> S ''not json''"
    by (metis numeral_eq_iff semiring_norm(88,89) num.inject)
  with strip_dumps_obj [of kvs] json_dumps_obj_ends [of kvs] json_dumps_no_newline [of "JObj kvs"]
  show ?thesis unfolding e by blast
qed

lemma not_json_strip:
  "strip (S ''not json'' @ [10]) = S ''not json'' \<and> S ''not json'' \<noteq> [] \<and>
   10 \<notin> set (S ''not json'') \<and> 13 \<notin> set (S ''not json'')"
  by (simp add: S_def strip_def isspace_def)

lemma test_envelope_ok: "entry_error (lib_table vs) (test_envelope (S ''i1'') (S ''a'') (S ''x'')) = None"
  "entry_error (lib_table vs) (test_envelope (S ''i2'') (S ''b'') (S ''x'')) = None"
  by (simp_all add: entry_error_def insert_error_def test_envelope_def payload_of_def dict_get_def
      field_str_def strip_def isspace_def S_def Let_def)

lemma dumps_differ:
  "json_dumps (test_envelope (S ''i1'') (S ''a'') (S ''x''))
     \<noteq> json_dumps (test_envelope (S ''i2'') (S ''b'') (S ''x''))"
  by code_simp

lemma five_pending:
  "pending five_lib (test_args b) (test_world five_lines)
     = ([(1, test_envelope (S ''i1'') (S ''a'') (S ''x'')),
         (2, test_envelope (S ''i2'') (S ''b'') (S ''x''))], Some (InvalidJson 3))"
proof -
  let ?d1 = "json_dumps (test_envelope (S ''i1'') (S ''a'') (S ''x''))"
  let ?d2 = "json_dumps (test_envelope (S ''i2'') (S ''b'') (S ''x''))"
  have nl: "\<forall>l \<in> set five_lines. 10 \<notin> set l \<and> 13 \<notin> set l"
    using test_envelope_strip not_json_strip by (simp add: five_lines_def del: json_dumps.simps)
  have so: "start_offset (test_args b) (test_world five_lines) = 0"
    by (simp add: start_offset_def start_world_def test_args_def test_world_def
        get_consumer_offset_def load_consumer_state_map_def)
  have l1: "json_loads five_lib ?d1 = Some (test_envelope (S ''i1'') (S ''a'') (S ''x''))"
    by (simp add: five_lib_def lib_table_def del: json_dumps.simps)
  have l2: "json_loads five_lib ?d2 = Some (test_envelope (S ''i2'') (S ''b'') (S ''x''))"
    using dumps_differ by (simp add: five_lib_def lib_table_def del: json_dumps.simps)
  have "S ''not json'' \<noteq> json_dumps (test_envelope i m c)" for i m c
    using test_envelope_strip [of i m c] by auto
  then have l3: "json_loads five_lib (S ''not json'') = None"
    by (simp add: five_lib_def lib_table_def del: json_dumps.simps)
  have "scan_lines five_lib 0 (enumerate 1 (map (\<lambda>l. l @ [10]) five_lines))
      = ([(1, test_envelope (S ''i1'') (S ''a'') (S ''x'')),
         (2, test_envelope (S ''i2'') (S ''b'') (S ''x''))], Some (InvalidJson 3))"
    using l1 l2 l3 test_envelope_strip not_json_strip
    by (simp add: five_lines_def Let_def del: json_dumps.simps)
  with test_world_lines [OF nl] show ?thesis
    by (simp add: pending_scan so)
qed

lemma two_scan:
  "scan_lines two_lib 0 (enumerate 1 (map (\<lambda>l. l @ [10]) two_lines))
     = ([(1, test_envelope (S ''i1'') (S ''a'') (S ''x'')),
         (2, test_envelope (S ''i2'') (S ''b'') (S ''x''))], None) \<and>
   scan_lines two_lib 1 (enumerate 1 (map (\<lambda>l. l @ [10]) two_lines))
     = ([(2, test_envelope (S ''i2'') (S ''b'') (S ''x''))], None) \<and>
   readlines (concat (map (\<lambda>l. l @ [10]) two_lines)) = map (\<lambda>l. l @ [10]) two_lines"
proof -
  let ?d1 = "json_dumps (test_envelope (S ''i1'') (S ''a'') (S ''x''))"
  let ?d2 = "json_dumps (test_envelope (S ''i2'') (S ''b'') (S ''x''))"
  have nl: "\<forall>l \<in> set two_lines. 10 \<notin> set l \<and> 13 \<notin> set l"
    using test_envelope_strip by (simp add: two_lines_def del: json_dumps.simps)
  have l1: "json_loads two_lib ?d1 = Some (test_envelope (S ''i1'') (S ''a'') (S ''x''))"
    by (simp add: two_lib_def lib_table_def del: json_dumps.simps)
  have l2: "json_loads two_lib ?d2 = Some (test_envelope (S ''i2'') (S ''b'') (S ''x''))"
    using dumps_differ by (simp add: two_lib_def lib_table_def del: json_dumps.simps)
  have "scan_lines two_lib 0 (enumerate 1 (map (\<lambda>l. l @ [10]) two_lines))
     = ([(1, test_envelope (S ''i1'') (S ''a'') (S ''x'')),
         (2, test_envelope (S ''i2'') (S ''b'') (S ''x''))], None)"
    using l1 l2 test_envelope_strip
    by (simp add: two_lines_def Let_def del: json_dumps.simps)
  moreover have "scan_lines two_lib 1 (enumerate 1 (map (\<lambda>l. l @ [10]) two_lines))
     = ([(2, test_envelope (S ''i2'') (S ''b'') (S ''x''))], None)"
    using l1 l2 test_envelope_strip
    by (simp add: two_lines_def Let_def del: json_dumps.simps)
  ultimately show ?thesis using readlines_lines [OF nl] by blast
qed

text \<open>
  Claim C3: when a run of the consumer is ended by an undecodable line \<open>m\<close> of the outbox,
  \<open>main\<close> returns 1; line \<open>m\<close> is a non-blank line after the starting offset that
  \<open>json.loads\<close> rejects; every entry read before it has been inserted; and the persisted
  offset is the line number of the last of them (the starting offset when there is
  none), which is smaller than \<open>m\<close>.  After every run, however it ends, the persisted
  offset is the line number of the last entry inserted and the table has one more row
  for each entry processed: the offset is written after each insert, not at the end.
\<close>

theorem driver_stops_at_malformed_line:
  "(caught (main L clock a w0) = Some (InvalidJson m) \<longrightarrow>
      outcome (main L clock a w0) = Returned 1 \<and>
      (\<exists>body items.
          outbox w0 = Some body \<and> pending L a w0 = (items, Some (InvalidJson m)) \<and>
          0 < m \<and> m \<le> length (readlines body) \<and> start_offset a w0 < int m \<and>
          strip (readlines body ! (m - 1)) \<noteq> [] \<and>
          json_loads L (strip (readlines body ! (m - 1))) = None \<and>
          (\<forall>x \<in> set items. fst x < m \<and> entry_error L (snd x) = None) \<and>
          processed (final (main L clock a w0)) = length items \<and>
          get_consumer_offset (consumer_name a) (world (final (main L clock a w0)))
            = (if items = [] then start_offset a w0 else int (fst (last items))) \<and>
          get_consumer_offset (consumer_name a) (world (final (main L clock a w0))) < int m)) \<and>
   get_consumer_offset (consumer_name a) (world (final (main L clock a w0)))
     = latest_offset (final (main L clock a w0)) \<and>
   (\<exists>new. messages (world (final (main L clock a w0))) = messages w0 @ new \<and>
          length new = processed (final (main L clock a w0)))"
proof (intro conjI impI)
  assume c3: "caught (main L clock a w0) = Some (InvalidJson m)"
  then have ns: "\<not> status_only a" by (auto simp: main_status_only)
  obtain items gerr where p: "pending L a w0 = (items, gerr)" by (cases "pending L a w0")
  obtain res st where c: "consume L clock a items gerr (start_state a w0) = (res, st)"
    by (cases "consume L clock a items gerr (start_state a w0)")
  note ml = main_loop [OF ns p c]
  from ml c3 have res: "res = Some (InvalidJson m)"
    by (auto split: option.splits if_splits)
  with ml show "outcome (main L clock a w0) = Returned 1" by simp
  from consume_run [OF c] obtain pre post new where r:
    "items = pre @ post" "\<forall>x \<in> set pre. entry_error L (snd x) = None"
    "processed st = processed (start_state a w0) + length pre"
    "pre = [] \<longrightarrow> st = start_state a w0"
    "pre \<noteq> [] \<longrightarrow> latest_offset st = int (fst (last pre)) \<and>
        get_consumer_offset (consumer_name a) (world st) = int (fst (last pre)) \<and>
        (batch_size a = 0 \<or> int (processed st) \<le> batch_size a)"
    "(post = [] \<and> res = gerr) \<or>
      (post \<noteq> [] \<and> res \<noteq> None \<and> res = entry_error L (snd (hd post))) \<or>
      (post \<noteq> [] \<and> res = None \<and> batch_size a \<noteq> 0 \<and> batch_size a \<le> int (processed st))"
    by (elim exE conjE) (rule that; assumption)
  from r(6) res entry_error_not_json [of L "snd (hd post)" m]
  have post: "post = []" and gerr: "gerr = Some (InvalidJson m)"
    by auto
  from r(1) post have pre: "pre = items" by simp
  let ?ls = "enumerate 1 (readlines (case outbox w0 of None \<Rightarrow> [] | Some t \<Rightarrow> t))"
  from p gerr have s: "scan_lines L (start_offset a w0) ?ls = (items, Some (InvalidJson m))"
    by (simp add: pending_scan)
  from scan_error [OF s sorted_enumerate] obtain l where l:
    "(m, l) \<in> set ?ls" "start_offset a w0 < int m" "strip l \<noteq> []"
    "json_loads L (strip l) = None" "\<forall>x \<in> set items. fst x < m"
    by auto
  from l(1) obtain body where body: "outbox w0 = Some body"
    by (cases "outbox w0") (auto simp: readlines_def)
  with l(1) have m: "0 < m" "m \<le> length (readlines body)" "readlines body ! (m - 1) = l"
    by (auto simp: in_set_enumerate_eq)
  have off: "get_consumer_offset (consumer_name a) (world st)
      = (if items = [] then start_offset a w0 else int (fst (last items)))"
    using r(4,5) unfolding pre by (auto simp: start_state_def start_offset_def)
  have lt: "get_consumer_offset (consumer_name a) (world st) < int m"
  proof (cases "items = []")
    case True
    with off l(2) show ?thesis by simp
  next
    case False
    then have "last items \<in> set items" by simp
    with l(5) have "fst (last items) < m" by blast
    with off False show ?thesis by simp
  qed
  from ml have f: "final (main L clock a w0) = st" by simp
  show "\<exists>body items.
          outbox w0 = Some body \<and> pending L a w0 = (items, Some (InvalidJson m)) \<and>
          0 < m \<and> m \<le> length (readlines body) \<and> start_offset a w0 < int m \<and>
          strip (readlines body ! (m - 1)) \<noteq> [] \<and>
          json_loads L (strip (readlines body ! (m - 1))) = None \<and>
          (\<forall>x \<in> set items. fst x < m \<and> entry_error L (snd x) = None) \<and>
          processed (final (main L clock a w0)) = length items \<and>
          get_consumer_offset (consumer_name a) (world (final (main L clock a w0)))
            = (if items = [] then start_offset a w0 else int (fst (last items))) \<and>
          get_consumer_offset (consumer_name a) (world (final (main L clock a w0))) < int m"
    unfolding f
    using body p gerr m l(2,3,4,5) r(2,3) pre off lt
    by (intro exI [of _ body] exI [of _ items]) (simp add: start_state_def)
next
  show "get_consumer_offset (consumer_name a) (world (final (main L clock a w0)))
     = latest_offset (final (main L clock a w0))"
    using main_invariant [of a L clock w0] by blast
  show "\<exists>new. messages (world (final (main L clock a w0))) = messages w0 @ new \<and>
          length new = processed (final (main L clock a w0))"
    using main_invariant [of a L clock w0] by blast
qed

theorem driver_stops_at_malformed_line_witness:
  "caught (main five_lib test_clock (test_args 0) (test_world five_lines)) = Some (InvalidJson 3) \<and>
   outcome (main five_lib test_clock (test_args 0) (test_world five_lines)) = Returned 1 \<and>
   processed (final (main five_lib test_clock (test_args 0) (test_world five_lines))) = 2 \<and>
   get_consumer_offset (S ''consumer-stub'')
     (world (final (main five_lib test_clock (test_args 0) (test_world five_lines)))) = 2"
proof -
  define r where "r = main five_lib test_clock (test_args 0) (test_world five_lines)"
  let ?items = "[(1, test_envelope (S ''i1'') (S ''a'') (S ''x'')),
         (2::nat, test_envelope (S ''i2'') (S ''b'') (S ''x''))]"
  have ns: "\<not> status_only (test_args 0)" and b: "batch_size (test_args 0) = 0"
    and n: "consumer_name (test_args 0) = S ''consumer-stub''"
    by (simp_all add: test_args_def)
  have ok: "\<forall>x \<in> set ?items. entry_error five_lib (snd x) = None"
    using test_envelope_ok by (simp add: five_lib_def)
  from main_all_ok [OF ns five_pending ok refl, of test_clock] b
  have c: "caught r = Some (InvalidJson 3)"
    by (simp add: r_def)
  from driver_stops_at_malformed_line [of five_lib test_clock "test_args 0" "test_world five_lines" 3]
    c [unfolded r_def]
  obtain items where i: "pending five_lib (test_args 0) (test_world five_lines)
        = (items, Some (InvalidJson 3))"
    "outcome r = Returned 1" "processed (final r) = length items"
    "get_consumer_offset (consumer_name (test_args 0)) (world (final r))
            = (if items = [] then start_offset (test_args 0) (test_world five_lines)
               else int (fst (last items)))"
    unfolding r_def by blast
  from i(1) have "items = ?items" by (simp add: five_pending)
  with i c show ?thesis unfolding r_def n by simp
qed

text \<open>
  Claim C6, as the code has it: after a run without batch cap (\<open>batch_size = 0\<close>, not
  \<open>status_only\<close>), a second run for the same consumer without \<open>reset_offset\<close>, on the
  state the first run left, processes no entry and leaves the whole state, so the
  persisted offset, as it was.
\<close>

theorem rerun_processes_nothing:
  assumes "batch_size a = 0" and "\<not> status_only a"
    and "consumer_name a' = consumer_name a" and "\<not> reset_offset a'"
  shows "processed (final (main L clock' a' (world (final (main L clock a w0))))) = 0 \<and>
         world (final (main L clock' a' (world (final (main L clock a w0)))))
           = world (final (main L clock a w0)) \<and>
         get_consumer_offset (consumer_name a)
             (world (final (main L clock' a' (world (final (main L clock a w0))))))
           = get_consumer_offset (consumer_name a) (world (final (main L clock a w0)))"
proof -
  obtain items gerr where p: "pending L a w0 = (items, gerr)" by (cases "pending L a w0")
  obtain res st where c: "consume L clock a items gerr (start_state a w0) = (res, st)"
    by (cases "consume L clock a items gerr (start_state a w0)")
  from main_loop [OF assms(2) p c] have f: "final (main L clock a w0) = st" by simp
  define w2 where "w2 = world st"
  let ?ls = "enumerate 1 (readlines (case outbox w0 of None \<Rightarrow> [] | Some t \<Rightarrow> t))"
  from p have s: "scan_lines L (start_offset a w0) ?ls = (items, gerr)"
    by (simp add: pending_scan)
  from consume_run [OF c] obtain pre post where r0:
    "items = pre @ post"
    "outbox (world st) = outbox (world (start_state a w0))"
    "pre = [] \<longrightarrow> st = start_state a w0"
    "pre \<noteq> [] \<longrightarrow> latest_offset st = int (fst (last pre)) \<and>
        get_consumer_offset (consumer_name a) (world st) = int (fst (last pre)) \<and>
        (batch_size a = 0 \<or> int (processed st) \<le> batch_size a)"
    "(post = [] \<and> res = gerr) \<or>
      (post \<noteq> [] \<and> res \<noteq> None \<and> res = entry_error L (snd (hd post))) \<or>
      (post \<noteq> [] \<and> res = None \<and> batch_size a \<noteq> 0 \<and> batch_size a \<le> int (processed st))"
    by (elim exE conjE) (rule that; assumption)
  from r0 assms(1) have r:
    "items = pre @ post"
    "outbox (world st) = outbox (world (start_state a w0))"
    "pre = [] \<longrightarrow> st = start_state a w0"
    "pre \<noteq> [] \<longrightarrow> get_consumer_offset (consumer_name a) (world st) = int (fst (last pre))"
    "(post = [] \<and> res = gerr) \<or> (post \<noteq> [] \<and> res \<noteq> None \<and> res = entry_error L (snd (hd post)))"
    by simp_all
  have o2: "outbox w2 = outbox w0"
    using r(2) by (simp add: w2_def start_state_def start_world_outbox)
  have sw2: "start_world a' w2 = w2"
    using assms(4) by (simp add: start_world_def)
  have st2: "start_state a' w2
      = \<lparr>processed = 0, duplicates = 0, latest_offset = start_offset a' w2, world = w2\<rparr>"
    by (simp add: start_state_def sw2)
  have so2: "start_offset a' w2 = get_consumer_offset (consumer_name a) w2"
    by (simp add: start_offset_def sw2 assms(3))
  have p2: "pending L a' w2 = (post, gerr)"
  proof (cases "pre = []")
    case True
    with r(3) have w2eq: "w2 = start_world a w0" by (simp add: w2_def start_state_def)
    have "start_offset a' w2 = get_consumer_offset (consumer_name a) w2"
      by (rule so2)
    also have "\<dots> = get_consumer_offset (consumer_name a) (start_world a w0)"
      by (simp only: w2eq)
    also have "\<dots> = start_offset a w0"
      by (simp add: start_offset_def)
    finally have "start_offset a' w2 = start_offset a w0" .
    with s r(1) True show ?thesis by (simp add: pending_scan o2)
  next
    case False
    with r(4) have "get_consumer_offset (consumer_name a) w2 = int (fst (last pre))"
      by (simp add: w2_def)
    then have "start_offset a' w2 = int (fst (last pre))" by (simp only: so2)
    moreover from s r(1) have "scan_lines L (start_offset a w0) ?ls = (pre @ post, gerr)" by simp
    from scan_resume [OF this False sorted_enumerate]
    have "scan_lines L (int (fst (last pre))) ?ls = (post, gerr)" .
    ultimately show ?thesis by (simp add: pending_scan o2)
  qed
  have "final (main L clock' a' w2) = start_state a' w2"
  proof (cases "status_only a'")
    case True
    then show ?thesis by (simp add: main_status_only)
  next
    case ns: False
    have "\<exists>res2. consume L clock' a' post gerr (start_state a' w2) = (res2, start_state a' w2)"
    proof (cases post)
      case Nil
      then show ?thesis by simp
    next
      case (Cons x rest)
      with r(5) obtain e where e: "entry_error L (snd x) = Some e" by auto
      show ?thesis
      proof (cases "batch_size a' \<noteq> 0 \<and> batch_size a' \<le> int (processed (start_state a' w2))")
        case True
        from consume_break [OF True] show ?thesis unfolding Cons by blast
      next
        case False
        from consume_fail [OF False e] show ?thesis unfolding Cons by blast
      qed
    qed
    then obtain res2 where "consume L clock' a' post gerr (start_state a' w2)
        = (res2, start_state a' w2)"
      by blast
    from main_loop [OF ns p2 this] show ?thesis by simp
  qed
  then show ?thesis unfolding f w2_def [symmetric] by (simp add: st2)
qed

theorem rerun_processes_nothing_witness:
  "batch_size (test_args 0) = 0 \<and> \<not> status_only (test_args 0) \<and> \<not> reset_offset (test_args 0) \<and>
   processed (final (main five_lib test_clock (test_args 0)
      (world (final (main five_lib test_clock (test_args 0) (test_world five_lines)))))) = 0 \<and>
   get_consumer_offset (S ''consumer-stub'')
      (world (final (main five_lib test_clock (test_args 0)
      (world (final (main five_lib test_clock (test_args 0) (test_world five_lines))))))) = 2"
proof -
  have a: "batch_size (test_args 0) = 0" "\<not> status_only (test_args 0)"
    "\<not> reset_offset (test_args 0)" "consumer_name (test_args 0) = S ''consumer-stub''"
    by (simp_all add: test_args_def)
  let ?items = "[(1, test_envelope (S ''i1'') (S ''a'') (S ''x'')),
         (2::nat, test_envelope (S ''i2'') (S ''b'') (S ''x''))]"
  have ok: "\<forall>x \<in> set ?items. entry_error five_lib (snd x) = None"
    using test_envelope_ok by (simp add: five_lib_def)
  from main_all_ok [OF a(2) five_pending ok refl, of test_clock]
  have o: "get_consumer_offset (S ''consumer-stub'')
      (world (final (main five_lib test_clock (test_args 0) (test_world five_lines)))) = 2"
    by (simp add: a)
  from rerun_processes_nothing [OF a(1) a(2) refl a(3), of five_lib test_clock test_clock
      "test_world five_lines"] o a
  show ?thesis by simp
qed

text \<open>
  Claim C6 as it is stated fails for a run with a batch cap: with \<open>batch_size = 1\<close> and
  two entries in the outbox, the first run processes line 1, and the second run, with
  nothing appended in between, processes line 2 and moves the offset from 1 to 2.
\<close>

theorem second_capped_run_processes_more:
  "processed (final (main two_lib test_clock (test_args 1)
      (world (final (main two_lib test_clock (test_args 1) (test_world two_lines)))))) = 1 \<and>
   get_consumer_offset (S ''consumer-stub'')
      (world (final (main two_lib test_clock (test_args 1) (test_world two_lines)))) = 1 \<and>
   get_consumer_offset (S ''consumer-stub'')
      (world (final (main two_lib test_clock (test_args 1)
      (world (final (main two_lib test_clock (test_args 1) (test_world two_lines))))))) = 2"
proof -
  define a where "a = test_args 1"
  define w0 where "w0 = test_world two_lines"
  define w2 where "w2 = world (final (main two_lib test_clock a w0))"
  let ?e1 = "test_envelope (S ''i1'') (S ''a'') (S ''x'')"
  let ?e2 = "test_envelope (S ''i2'') (S ''b'') (S ''x'')"
  have a: "\<not> status_only a" "batch_size a = 1" "consumer_name a = S ''consumer-stub''"
    "\<not> reset_offset a"
    by (simp_all add: a_def test_args_def)
  have o0: "outbox w0 = Some (concat (map (\<lambda>l. l @ [10]) two_lines))"
    by (simp add: w0_def test_world_def)
  have s0: "start_offset a w0 = 0"
    by (simp add: start_offset_def start_world_def a w0_def test_world_def
        get_consumer_offset_def load_consumer_state_map_def)
  have p1: "pending two_lib a w0 = ([(1, ?e1), (2, ?e2)], None)"
    using two_scan by (simp add: pending_scan o0 s0)
  have ok1: "\<forall>x \<in> set [(1::nat, ?e1), (2, ?e2)]. entry_error two_lib (snd x) = None"
    using test_envelope_ok by (simp add: two_lib_def)
  from main_all_ok [OF a(1) p1 ok1 refl, of test_clock]
  have r1: "processed (final (main two_lib test_clock a w0)) = 1"
    "get_consumer_offset (consumer_name a) w2 = 1"
    by (simp_all add: a(2) w2_def)
  from main_invariant [of a two_lib test_clock w0]
  have o2: "outbox w2 = Some (concat (map (\<lambda>l. l @ [10]) two_lines))"
    by (simp add: w2_def o0)
  have s2: "start_offset a w2 = 1"
    using r1(2) a(4) by (simp add: start_offset_def start_world_def)
  have p2: "pending two_lib a w2 = ([(2, ?e2)], None)"
    using two_scan by (simp add: pending_scan o2 s2)
  have ok2: "\<forall>x \<in> set [(2::nat, ?e2)]. entry_error two_lib (snd x) = None"
    using test_envelope_ok by (simp add: two_lib_def)
  from main_all_ok [OF a(1) p2 ok2 refl, of test_clock]
  have r2: "processed (final (main two_lib test_clock a w2)) = 1"
    "get_consumer_offset (consumer_name a) (world (final (main two_lib test_clock a w2))) = 2"
    by (simp_all add: a(2))
  from r1 r2 show ?thesis
    unfolding w2_def a(3) unfolding a_def w0_def by simp
qed

end
